theory Spec2Isabelle
  imports Main "HOL-Library.Word"
begin

section \<open>Memory model\<close>

text \<open>
  The tree of \<^verbatim>\<open>bst.h\<close> is a pointer graph: every node holds two child
  pointers and a parent pointer, and the rotations of \<^verbatim>\<open>BNode::balance\<close>
  rewire them in place. The model keeps the pointers: a heap maps addresses to nodes,
  \<open>None\<close> is \<^verbatim>\<open>nullptr\<close>, and every source function becomes a function
  from heap to heap. Dereferencing \<^verbatim>\<open>nullptr\<close> or a deleted node is
  undefined behaviour in C++; the model returns a fault instead. Loops and recursions
  over the pointer graph take a fuel argument and return \<open>OutOfFuel\<close> when it is
  used up, so that a loop that never ends is visible as a value.
\<close>

datatype fault = NullDeref | Dangling | OutOfFuel

definition rbind :: "fault + 'a \<Rightarrow> ('a \<Rightarrow> fault + 'b) \<Rightarrow> fault + 'b" where
  "rbind m f = (case m of Inl e \<Rightarrow> Inl e | Inr x \<Rightarrow> f x)"

text \<open>The short-circuit conjunction \<^verbatim>\<open>a && b\<close>: \<open>b\<close> is not evaluated
  (and cannot fault) when \<open>a\<close> is false.\<close>

definition andalso :: "fault + bool \<Rightarrow> fault + bool \<Rightarrow> fault + bool" where
  "andalso a b = rbind a (\<lambda>x. if x then b else Inr False)"

type_synonym ptr = "nat option"

text \<open>\<^verbatim>\<open>class BST<T>::BNode\<close>: the member initialiser \<^verbatim>\<open>isRed = true\<close>
  makes every new node red.\<close>

record 'a BNode =
  data :: 'a
  pLeft :: ptr
  pRight :: ptr
  pParent :: ptr
  isRed :: bool

record 'a heap =
  cells :: "nat \<Rightarrow> 'a BNode option"
  nxt :: nat

definition empty_heap :: "'a heap" where
  "empty_heap = \<lparr>cells = (\<lambda>_. None), nxt = 0\<rparr>"

definition deref :: "'a heap \<Rightarrow> ptr \<Rightarrow> fault + 'a BNode" where
  "deref h p = (case p of None \<Rightarrow> Inl NullDeref
     | Some a \<Rightarrow> (case cells h a of None \<Rightarrow> Inl Dangling | Some n \<Rightarrow> Inr n))"

definition store :: "'a heap \<Rightarrow> ptr \<Rightarrow> ('a BNode \<Rightarrow> 'a BNode) \<Rightarrow> fault + 'a heap" where
  "store h p f = (case p of None \<Rightarrow> Inl NullDeref
     | Some a \<Rightarrow> (case cells h a of None \<Rightarrow> Inl Dangling
         | Some n \<Rightarrow> Inr (h\<lparr>cells := (cells h)(a \<mapsto> f n)\<rparr>)))"

definition get_data :: "'a heap \<Rightarrow> ptr \<Rightarrow> fault + 'a" where
  "get_data h p = rbind (deref h p) (\<lambda>n. Inr (data n))"

definition get_pLeft :: "'a heap \<Rightarrow> ptr \<Rightarrow> fault + ptr" where
  "get_pLeft h p = rbind (deref h p) (\<lambda>n. Inr (pLeft n))"

definition get_pRight :: "'a heap \<Rightarrow> ptr \<Rightarrow> fault + ptr" where
  "get_pRight h p = rbind (deref h p) (\<lambda>n. Inr (pRight n))"

definition get_pParent :: "'a heap \<Rightarrow> ptr \<Rightarrow> fault + ptr" where
  "get_pParent h p = rbind (deref h p) (\<lambda>n. Inr (pParent n))"

definition get_isRed :: "'a heap \<Rightarrow> ptr \<Rightarrow> fault + bool" where
  "get_isRed h p = rbind (deref h p) (\<lambda>n. Inr (isRed n))"

definition set_pLeft :: "'a heap \<Rightarrow> ptr \<Rightarrow> ptr \<Rightarrow> fault + 'a heap" where
  "set_pLeft h p v = store h p (\<lambda>n. n\<lparr>pLeft := v\<rparr>)"

definition set_pRight :: "'a heap \<Rightarrow> ptr \<Rightarrow> ptr \<Rightarrow> fault + 'a heap" where
  "set_pRight h p v = store h p (\<lambda>n. n\<lparr>pRight := v\<rparr>)"

definition set_pParent :: "'a heap \<Rightarrow> ptr \<Rightarrow> ptr \<Rightarrow> fault + 'a heap" where
  "set_pParent h p v = store h p (\<lambda>n. n\<lparr>pParent := v\<rparr>)"

definition set_isRed :: "'a heap \<Rightarrow> ptr \<Rightarrow> bool \<Rightarrow> fault + 'a heap" where
  "set_isRed h p v = store h p (\<lambda>n. n\<lparr>isRed := v\<rparr>)"

text \<open>\<^verbatim>\<open>new BNode(t)\<close> and \<^verbatim>\<open>delete p\<close>. Allocation never fails in the
  model; deleting \<^verbatim>\<open>nullptr\<close> does nothing, deleting a node twice is a fault.\<close>

definition new_BNode :: "'a heap \<Rightarrow> 'a \<Rightarrow> 'a heap \<times> ptr" where
  "new_BNode h t =
     (h\<lparr>cells := (cells h)(nxt h \<mapsto>
           \<lparr>data = t, pLeft = None, pRight = None, pParent = None, isRed = True\<rparr>),
        nxt := Suc (nxt h)\<rparr>,
      Some (nxt h))"

definition delete_BNode :: "'a heap \<Rightarrow> ptr \<Rightarrow> fault + 'a heap" where
  "delete_BNode h p = (case p of None \<Rightarrow> Inr h
     | Some a \<Rightarrow> (case cells h a of None \<Rightarrow> Inl Dangling
         | Some n \<Rightarrow> Inr (h\<lparr>cells := (cells h)(a := None)\<rparr>)))"

section \<open>BNode\<close>

text \<open>\<^verbatim>\<open>isRightChild\<close> and \<^verbatim>\<open>isLeftChild\<close> ignore their argument and test
  \<^verbatim>\<open>pParent && pParent->pRight == this\<close>.\<close>

definition isRightChild :: "'a heap \<Rightarrow> ptr \<Rightarrow> fault + bool" where
  "isRightChild h this =
     rbind (get_pParent h this) (\<lambda>pp.
       if pp = None then Inr False
       else rbind (get_pRight h pp) (\<lambda>r. Inr (r = this)))"

definition isLeftChild :: "'a heap \<Rightarrow> ptr \<Rightarrow> fault + bool" where
  "isLeftChild h this =
     rbind (get_pParent h this) (\<lambda>pp.
       if pp = None then Inr False
       else rbind (get_pLeft h pp) (\<lambda>l. Inr (l = this)))"

text \<open>\<^verbatim>\<open>addLeft(BNode*)\<close>, \<^verbatim>\<open>addRight(BNode*)\<close>.\<close>

definition addLeft :: "'a heap \<Rightarrow> ptr \<Rightarrow> ptr \<Rightarrow> fault + 'a heap" where
  "addLeft h this pNode =
     rbind (if pNode \<noteq> None then set_pParent h pNode this else Inr h) (\<lambda>h1.
       set_pLeft h1 this pNode)"

definition addRight :: "'a heap \<Rightarrow> ptr \<Rightarrow> ptr \<Rightarrow> fault + 'a heap" where
  "addRight h this pNode =
     rbind (if pNode \<noteq> None then set_pParent h pNode this else Inr h) (\<lambda>h1.
       set_pRight h1 this pNode)"

text \<open>\<^verbatim>\<open>addLeft(const T&)\<close>, \<^verbatim>\<open>addRight(const T&)\<close> (the rvalue overloads
  do the same).\<close>

definition addLeft_value :: "'a heap \<Rightarrow> ptr \<Rightarrow> 'a \<Rightarrow> fault + 'a heap" where
  "addLeft_value h this t =
     (case new_BNode h t of (h1, pAdd) \<Rightarrow>
        rbind (set_pParent h1 pAdd this) (\<lambda>h2. set_pLeft h2 this pAdd))"

definition addRight_value :: "'a heap \<Rightarrow> ptr \<Rightarrow> 'a \<Rightarrow> fault + 'a heap" where
  "addRight_value h this t =
     (case new_BNode h t of (h1, pAdd) \<Rightarrow>
        rbind (set_pParent h1 pAdd this) (\<lambda>h2. set_pRight h2 this pAdd))"

subsection \<open>balance\<close>

text \<open>
  In the source \<^verbatim>\<open>pParent\<close> is the member \<^verbatim>\<open>this->pParent\<close>, read again
  at every use, while \<^verbatim>\<open>pGrandparent\<close>, \<^verbatim>\<open>pGreatGranny\<close>,
  \<^verbatim>\<open>pAunt\<close> and \<^verbatim>\<open>pSibling\<close> are locals computed once. The model
  reads \<open>get_pParent h this\<close> wherever the source says \<^verbatim>\<open>pParent\<close> after a
  write. The four rotation cases are four consecutive \<^verbatim>\<open>if\<close> statements, not
  an \<^verbatim>\<open>else if\<close> chain, so each one is a heap transformer that tests its own
  condition on the heap the previous one left.

  The test of each case:
  \<^verbatim>\<open>this->isXChild(pParent) && pParent->isYChild(pGrandparent) && pParent->isRed && !pGrandparent->isRed\<close>.
\<close>

definition shape_test ::
  "('a heap \<Rightarrow> ptr \<Rightarrow> fault + bool) \<Rightarrow> ('a heap \<Rightarrow> ptr \<Rightarrow> fault + bool) \<Rightarrow>
   'a heap \<Rightarrow> ptr \<Rightarrow> ptr \<Rightarrow> fault + bool" where
  "shape_test mine moms h this pGrandparent =
     andalso (mine h this)
    (andalso (rbind (get_pParent h this) (moms h))
    (andalso (rbind (get_pParent h this) (get_isRed h))
             (rbind (get_isRed h pGrandparent) (\<lambda>r. Inr (\<not> r)))))"

text \<open>Cases 4a and 4b end with the same statements:
  \<^verbatim>\<open>pParent->pParent = pGreatGranny;
  if (pGreatGranny)
     (pGrandparent->isRightChild(pGreatGranny)) ? pGreatGranny->pLeft = pParent
                                                 : pGreatGranny->pRight = pParent;
  pParent->isRed = false;
  pGrandparent->isRed = true;\<close>\<close>

definition hook_and_recolor :: "'a heap \<Rightarrow> ptr \<Rightarrow> ptr \<Rightarrow> ptr \<Rightarrow> fault + 'a heap" where
  "hook_and_recolor h this pGrandparent pGreatGranny =
     rbind (get_pParent h this) (\<lambda>p.
     rbind (set_pParent h p pGreatGranny) (\<lambda>h1.
     rbind (if pGreatGranny \<noteq> None
            then rbind (isRightChild h1 pGrandparent) (\<lambda>rc.
                 rbind (get_pParent h1 this) (\<lambda>p1.
                   if rc then set_pLeft h1 pGreatGranny p1
                   else set_pRight h1 pGreatGranny p1))
            else Inr h1) (\<lambda>h2.
     rbind (get_pParent h2 this) (\<lambda>p2.
     rbind (set_isRed h2 p2 False) (\<lambda>h3.
     set_isRed h3 pGrandparent True)))))"

definition case4a :: "'a heap \<Rightarrow> ptr \<Rightarrow> ptr \<Rightarrow> ptr \<Rightarrow> ptr \<Rightarrow> fault + 'a heap" where
  "case4a h this pGrandparent pGreatGranny pSibling =
     rbind (shape_test isLeftChild isLeftChild h this pGrandparent) (\<lambda>c.
     if \<not> c then Inr h
     else rbind (get_pParent h this) (\<lambda>p.
          rbind (addRight h p pGrandparent) (\<lambda>h1.
          rbind (addLeft h1 pGrandparent pSibling) (\<lambda>h2.
          hook_and_recolor h2 this pGrandparent pGreatGranny))))"

definition case4b :: "'a heap \<Rightarrow> ptr \<Rightarrow> ptr \<Rightarrow> ptr \<Rightarrow> ptr \<Rightarrow> fault + 'a heap" where
  "case4b h this pGrandparent pGreatGranny pSibling =
     rbind (shape_test isRightChild isRightChild h this pGrandparent) (\<lambda>c.
     if \<not> c then Inr h
     else rbind (get_pParent h this) (\<lambda>p.
          rbind (addLeft h p pGrandparent) (\<lambda>h1.
          rbind (addRight h1 pGrandparent pSibling) (\<lambda>h2.
          hook_and_recolor h2 this pGrandparent pGreatGranny))))"

text \<open>Cases 4c and 4d end with the same statements:
  \<^verbatim>\<open>if (!pGreatGranny)
     pParent = pGreatGranny;
  else if (pGrandparent->isRightChild(pGreatGranny))
     pGreatGranny->pRight = pParent;
  else
     pGreatGranny->pLeft = pParent;
  pGrandparent->isRed = true;
  isRed = false;\<close>\<close>

definition hook_and_recolor_zigzag ::
  "'a heap \<Rightarrow> ptr \<Rightarrow> ptr \<Rightarrow> ptr \<Rightarrow> fault + 'a heap" where
  "hook_and_recolor_zigzag h this pGrandparent pGreatGranny =
     rbind (if pGreatGranny = None then set_pParent h this pGreatGranny
            else rbind (isRightChild h pGrandparent) (\<lambda>rc.
                 rbind (get_pParent h this) (\<lambda>p.
                   if rc then set_pRight h pGreatGranny p
                   else set_pLeft h pGreatGranny p))) (\<lambda>h1.
     rbind (set_isRed h1 pGrandparent True) (\<lambda>h2.
     set_isRed h2 this False))"

definition case4c :: "'a heap \<Rightarrow> ptr \<Rightarrow> ptr \<Rightarrow> ptr \<Rightarrow> fault + 'a heap" where
  "case4c h this pGrandparent pGreatGranny =
     rbind (shape_test isRightChild isLeftChild h this pGrandparent) (\<lambda>c.
     if \<not> c then Inr h
     else rbind (get_pRight h this) (\<lambda>r.
          rbind (addLeft h pGrandparent r) (\<lambda>h1.
          rbind (get_pParent h1 this) (\<lambda>p1.
          rbind (get_pLeft h1 this) (\<lambda>l1.
          rbind (addRight h1 p1 l1) (\<lambda>h2.
          rbind (addRight h2 this pGrandparent) (\<lambda>h3.
          rbind (get_pParent h3 this) (\<lambda>p3.
          rbind (addLeft h3 this p3) (\<lambda>h4.
          hook_and_recolor_zigzag h4 this pGrandparent pGreatGranny)))))))))"

definition case4d :: "'a heap \<Rightarrow> ptr \<Rightarrow> ptr \<Rightarrow> ptr \<Rightarrow> fault + 'a heap" where
  "case4d h this pGrandparent pGreatGranny =
     rbind (shape_test isLeftChild isRightChild h this pGrandparent) (\<lambda>c.
     if \<not> c then Inr h
     else rbind (get_pLeft h this) (\<lambda>l.
          rbind (addRight h pGrandparent l) (\<lambda>h1.
          rbind (get_pParent h1 this) (\<lambda>p1.
          rbind (get_pRight h1 this) (\<lambda>r1.
          rbind (addLeft h1 p1 r1) (\<lambda>h2.
          rbind (addLeft h2 this pGrandparent) (\<lambda>h3.
          rbind (get_pParent h3 this) (\<lambda>p3.
          rbind (addRight h3 this p3) (\<lambda>h4.
          hook_and_recolor_zigzag h4 this pGrandparent pGreatGranny)))))))))"

text \<open>Case 4 as a whole: the four \<^verbatim>\<open>if\<close> statements in source order.\<close>

definition rotate :: "'a heap \<Rightarrow> ptr \<Rightarrow> ptr \<Rightarrow> ptr \<Rightarrow> ptr \<Rightarrow> fault + 'a heap" where
  "rotate h this pGrandparent pGreatGranny pSibling =
     rbind (case4a h this pGrandparent pGreatGranny pSibling) (\<lambda>h1.
     rbind (case4b h1 this pGrandparent pGreatGranny pSibling) (\<lambda>h2.
     rbind (case4c h2 this pGrandparent pGreatGranny) (\<lambda>h3.
     case4d h3 this pGrandparent pGreatGranny)))"

text \<open>\<^verbatim>\<open>BNode::balance\<close>. One unit of fuel per call; the only recursive call is
  the one of case 3, on the grandparent.\<close>

fun balance :: "nat \<Rightarrow> 'a heap \<Rightarrow> ptr \<Rightarrow> fault + 'a heap" where
  "balance 0 h this = Inl OutOfFuel"
| "balance (Suc k) h this =
     rbind (get_pParent h this) (\<lambda>pp.
     if pp = None then set_isRed h this False
     else
     rbind (get_isRed h pp) (\<lambda>parentRed.
     if \<not> parentRed then Inr h
     else
     rbind (get_pParent h pp) (\<lambda>pGrandparent.
     rbind (get_pParent h pGrandparent) (\<lambda>pGreatGranny.
     rbind (get_pLeft h pGrandparent) (\<lambda>gl.
     rbind (if pp = gl then get_pRight h pGrandparent
            else get_pLeft h pGrandparent) (\<lambda>pAunt.
     rbind (isLeftChild h this) (\<lambda>il.
     rbind (if il then get_pRight h pp else get_pLeft h pp) (\<lambda>pSibling.
     rbind (if pAunt \<noteq> None then get_isRed h pAunt else Inr False) (\<lambda>auntRed.
     if auntRed then
       rbind (set_isRed h pGrandparent True) (\<lambda>h1.
       rbind (balance k h1 pGrandparent) (\<lambda>h2.
       rbind (get_pParent h2 this) (\<lambda>p2.
       rbind (set_isRed h2 p2 False) (\<lambda>h3.
       set_isRed h3 pAunt False))))
     else
       rbind (if pAunt \<noteq> None then rbind (get_isRed h pAunt) (\<lambda>r. Inr (\<not> r))
              else Inr True) (\<lambda>auntBlackOrAbsent.
       if auntBlackOrAbsent then rotate h this pGrandparent pGreatGranny pSibling
       else Inr h))))))))))"

section \<open>Iterator\<close>

text \<open>An iterator is its \<^verbatim>\<open>pNode\<close>; \<^verbatim>\<open>end()\<close> wraps \<^verbatim>\<open>nullptr\<close>;
  \<^verbatim>\<open>operator==\<close> compares the pointers.\<close>

definition BST_end :: ptr where
  "BST_end = None"

text \<open>\<^verbatim>\<open>while (pNode->pLeft) pNode = pNode->pLeft;\<close>\<close>

fun go_left :: "nat \<Rightarrow> 'a heap \<Rightarrow> ptr \<Rightarrow> fault + ptr" where
  "go_left 0 h p = Inl OutOfFuel"
| "go_left (Suc k) h p =
     rbind (get_pLeft h p) (\<lambda>l. if l \<noteq> None then go_left k h l else Inr p)"

text \<open>\<^verbatim>\<open>while (pNode->pParent && pNode->isRightChild(pNode->pParent)) pNode = pNode->pParent;\<close>\<close>

fun climb_right :: "nat \<Rightarrow> 'a heap \<Rightarrow> ptr \<Rightarrow> fault + ptr" where
  "climb_right 0 h p = Inl OutOfFuel"
| "climb_right (Suc k) h p =
     rbind (andalso (rbind (get_pParent h p) (\<lambda>pp. Inr (pp \<noteq> None))) (isRightChild h p)) (\<lambda>c.
       if c then rbind (get_pParent h p) (climb_right k h) else Inr p)"

text \<open>\<^verbatim>\<open>iterator::operator++\<close> (prefix). When none of the three \<^verbatim>\<open>if\<close>
  statements applies the iterator is returned as it is.\<close>

definition incr :: "nat \<Rightarrow> 'a heap \<Rightarrow> ptr \<Rightarrow> fault + ptr" where
  "incr fuel h pNode =
     (if pNode = None then Inr pNode
      else
      rbind (get_pRight h pNode) (\<lambda>r.
      if r \<noteq> None then go_left fuel h r
      else
      rbind (isLeftChild h pNode) (\<lambda>il.
      if il then get_pParent h pNode
      else
      rbind (isRightChild h pNode) (\<lambda>ir.
      if ir then rbind (climb_right fuel h pNode) (get_pParent h)
      else Inr pNode))))"

section \<open>BST\<close>

text \<open>The object: \<^verbatim>\<open>BNode * root; size_t numElements;\<close>.\<close>

record BST =
  root :: ptr
  numElements :: "64 word"

text \<open>\<^verbatim>\<open>BST::BST()\<close>, \<^verbatim>\<open>empty()\<close>, \<^verbatim>\<open>size()\<close>.\<close>

definition BST_ctor :: BST where
  "BST_ctor = \<lparr>root = None, numElements = 0\<rparr>"

definition BST_empty :: "BST \<Rightarrow> bool" where
  "BST_empty b = (root b = None)"

definition BST_size :: "BST \<Rightarrow> 64 word" where
  "BST_size b = numElements b"

text \<open>The element type \<^verbatim>\<open>T\<close> enters through its \<^verbatim>\<open>operator==\<close> and
  \<^verbatim>\<open>operator<\<close>.\<close>

record 'a cmp =
  equal_to :: "'a \<Rightarrow> 'a \<Rightarrow> bool"
  less_than :: "'a \<Rightarrow> 'a \<Rightarrow> bool"

definition val_cmp :: "('a::linorder) cmp" where
  "val_cmp = \<lparr>equal_to = (\<lambda>a b. a = b), less_than = (\<lambda>a b. a < b)\<rparr>"

text \<open>\<^verbatim>\<open>_insert\<close> and \<^verbatim>\<open>_clear\<close> take \<^verbatim>\<open>BNode*& pNode\<close>: a reference to
  the place that holds the pointer, which is \<^verbatim>\<open>root\<close> or a child field of a node.\<close>

datatype slot = RootSlot | LeftSlot nat | RightSlot nat

fun slot_get :: "'a heap \<Rightarrow> BST \<Rightarrow> slot \<Rightarrow> fault + ptr" where
  "slot_get h b RootSlot = Inr (root b)"
| "slot_get h b (LeftSlot a) = get_pLeft h (Some a)"
| "slot_get h b (RightSlot a) = get_pRight h (Some a)"

fun slot_set :: "'a heap \<Rightarrow> BST \<Rightarrow> slot \<Rightarrow> ptr \<Rightarrow> fault + ('a heap \<times> BST)" where
  "slot_set h b RootSlot v = Inr (h, b\<lparr>root := v\<rparr>)"
| "slot_set h b (LeftSlot a) v = rbind (set_pLeft h (Some a) v) (\<lambda>h1. Inr (h1, b))"
| "slot_set h b (RightSlot a) v = rbind (set_pRight h (Some a) v) (\<lambda>h1. Inr (h1, b))"

definition child_slot :: "bool \<Rightarrow> ptr \<Rightarrow> fault + slot" where
  "child_slot left p = (case p of None \<Rightarrow> Inl NullDeref
     | Some a \<Rightarrow> Inr (if left then LeftSlot a else RightSlot a))"

text \<open>\<^verbatim>\<open>BST::_insert\<close> (Isabelle names cannot start with an underscore). The
  result is (heap, object, iterator, inserted). In the two linking branches the returned
  iterator is built from \<^verbatim>\<open>root->pLeft\<close> and \<^verbatim>\<open>root->pRight\<close>, where
  \<^verbatim>\<open>root\<close> is the member of the tree.\<close>

fun priv_insert ::
  "nat \<Rightarrow> 'a cmp \<Rightarrow> 'a heap \<Rightarrow> BST \<Rightarrow> slot \<Rightarrow> 'a \<Rightarrow> bool \<Rightarrow>
   fault + ('a heap \<times> BST \<times> ptr \<times> bool)" where
  "priv_insert 0 c h b pNode t keepUnique = Inl OutOfFuel"
| "priv_insert (Suc k) c h b pNode t keepUnique =
     rbind (slot_get h b pNode) (\<lambda>p.
     if p = None then
       (case new_BNode h t of (h1, pNew) \<Rightarrow>
          rbind (slot_set h1 b pNode pNew) (\<lambda>(h2, b2).
          rbind (slot_get h2 b2 pNode) (\<lambda>q. Inr (h2, b2, q, True))))
     else
     rbind (get_data h p) (\<lambda>d.
     if keepUnique \<and> equal_to c t d then Inr (h, b, p, False)
     else if less_than c t d then
       rbind (get_pLeft h p) (\<lambda>l.
       if l \<noteq> None then
         rbind (child_slot True p) (\<lambda>s. priv_insert k c h b s t keepUnique)
       else
         rbind (addLeft_value h p t) (\<lambda>h1.
         rbind (slot_get h1 b pNode) (\<lambda>p1.
         rbind (get_pLeft h1 p1) (\<lambda>l1.
         rbind (balance k h1 l1) (\<lambda>h2.
         rbind (get_pLeft h2 (root b)) (\<lambda>res. Inr (h2, b, res, True)))))))
     else
       rbind (get_pRight h p) (\<lambda>r.
       if r \<noteq> None then
         rbind (child_slot False p) (\<lambda>s. priv_insert k c h b s t keepUnique)
       else
         rbind (addRight_value h p t) (\<lambda>h1.
         rbind (slot_get h1 b pNode) (\<lambda>p1.
         rbind (get_pRight h1 p1) (\<lambda>r1.
         rbind (balance k h1 r1) (\<lambda>h2.
         rbind (get_pRight h2 (root b)) (\<lambda>res. Inr (h2, b, res, True)))))))))"

text \<open>\<^verbatim>\<open>while (root->pParent) root = root->pParent;\<close>\<close>

fun hook_root :: "nat \<Rightarrow> 'a heap \<Rightarrow> ptr \<Rightarrow> fault + ptr" where
  "hook_root 0 h r = Inl OutOfFuel"
| "hook_root (Suc k) h r =
     rbind (get_pParent h r) (\<lambda>pp. if pp \<noteq> None then hook_root k h pp else Inr r)"

text \<open>\<^verbatim>\<open>BST::insert(const T&, bool keepUnique = false)\<close>; the rvalue overload
  with \<^verbatim>\<open>_insertMove\<close> has the same body.\<close>

definition BST_insert ::
  "nat \<Rightarrow> 'a cmp \<Rightarrow> 'a heap \<Rightarrow> BST \<Rightarrow> 'a \<Rightarrow> bool \<Rightarrow>
   fault + ('a heap \<times> BST \<times> ptr \<times> bool)" where
  "BST_insert fuel c h b t keepUnique =
     (if root b \<noteq> None then
        rbind (priv_insert fuel c h b RootSlot t keepUnique) (\<lambda>(h1, b1, it, inserted).
        rbind (hook_root fuel h1
                 (root (if inserted then b1\<lparr>numElements := numElements b1 + 1\<rparr> else b1)))
          (\<lambda>r.
        Inr (h1,
             (if inserted then b1\<lparr>numElements := numElements b1 + 1\<rparr> else b1)\<lparr>root := r\<rparr>,
             it, inserted)))
      else
        (case new_BNode h t of (h1, pNew) \<Rightarrow>
           rbind (set_isRed h1 pNew False) (\<lambda>h2.
           Inr (h2, b\<lparr>root := pNew, numElements := numElements b + 1\<rparr>, pNew, True))))"

text \<open>\<^verbatim>\<open>BST::begin\<close>.\<close>

definition BST_begin :: "nat \<Rightarrow> 'a heap \<Rightarrow> BST \<Rightarrow> fault + ptr" where
  "BST_begin fuel h b = (if BST_empty b then Inr BST_end else go_left fuel h (root b))"

text \<open>\<^verbatim>\<open>BST::find\<close>. The source only reads, so the model returns the iterator
  alone.\<close>

fun find_loop :: "nat \<Rightarrow> 'a cmp \<Rightarrow> 'a heap \<Rightarrow> ptr \<Rightarrow> 'a \<Rightarrow> fault + ptr" where
  "find_loop 0 c h p t = Inl OutOfFuel"
| "find_loop (Suc k) c h p t =
     (if p = None then Inr BST_end
      else
      rbind (get_data h p) (\<lambda>d.
      if equal_to c d t then Inr p
      else if less_than c t d then rbind (get_pLeft h p) (\<lambda>l. find_loop k c h l t)
      else rbind (get_pRight h p) (\<lambda>r. find_loop k c h r t)))"

definition BST_find :: "nat \<Rightarrow> 'a cmp \<Rightarrow> 'a heap \<Rightarrow> BST \<Rightarrow> 'a \<Rightarrow> fault + ptr" where
  "BST_find fuel c h b t = find_loop fuel c h (root b) t"

text \<open>\<^verbatim>\<open>BST::erase\<close>. Cases one and two share the statement
  \<^verbatim>\<open>(it.pNode->pParent && it.pNode->isRightChild(it.pNode->pParent)) ?
     it.pNode->pParent->pRight = x : it.pNode->pParent->pLeft = x;\<close>
  whose else branch dereferences \<^verbatim>\<open>it.pNode->pParent\<close> also when it is
  \<^verbatim>\<open>nullptr\<close>.\<close>

definition relink_parent :: "'a heap \<Rightarrow> ptr \<Rightarrow> ptr \<Rightarrow> fault + 'a heap" where
  "relink_parent h it x =
     rbind (andalso (rbind (get_pParent h it) (\<lambda>pp. Inr (pp \<noteq> None))) (isRightChild h it)) (\<lambda>c.
     rbind (get_pParent h it) (\<lambda>pp.
       if c then set_pRight h pp x else set_pLeft h pp x))"

text \<open>Case three of \<^verbatim>\<open>erase\<close>: the node has two children; \<open>s\<close> is
  \<^verbatim>\<open>pSuccessor.pNode\<close>.\<close>

definition erase_two_children ::
  "nat \<Rightarrow> 'a heap \<Rightarrow> BST \<Rightarrow> ptr \<Rightarrow> fault + ('a heap \<times> BST \<times> ptr)" where
  "erase_two_children fuel h b it =
     rbind (incr fuel h it) (\<lambda>s.
     rbind (isLeftChild h s) (\<lambda>sl.
     rbind (get_pParent h s) (\<lambda>sp.
     rbind (get_pRight h s) (\<lambda>sr.
     rbind (if sl then set_pLeft h sp sr else set_pRight h sp sr) (\<lambda>h1.
     rbind (get_pRight h1 s) (\<lambda>sr1.
     rbind (if sr1 \<noteq> None
            then rbind (get_pParent h1 s) (\<lambda>sp1. set_pParent h1 sr1 sp1)
            else Inr h1) (\<lambda>h2.
     rbind (get_pParent h2 it) (\<lambda>ip.
     rbind (if ip \<noteq> None
            then rbind (isLeftChild h2 it) (\<lambda>il.
                   if il then set_pLeft h2 ip s else set_pRight h2 ip s)
            else Inr h2) (\<lambda>h3.
     rbind (get_pParent h3 it) (\<lambda>ip3.
     rbind (set_pParent h3 s ip3) (\<lambda>h4.
     rbind (get_pLeft h4 it) (\<lambda>il4.
     rbind (set_pLeft h4 s il4) (\<lambda>h5.
     rbind (get_pRight h5 it) (\<lambda>ir5.
     rbind (set_pRight h5 s ir5) (\<lambda>h6.
     rbind (get_pLeft h6 it) (\<lambda>il6.
     rbind (if il6 \<noteq> None then set_pParent h6 il6 s else Inr h6) (\<lambda>h7.
     rbind (get_pRight h7 it) (\<lambda>ir7.
     rbind (if ir7 \<noteq> None then set_pParent h7 ir7 s else Inr h7) (\<lambda>h8.
     rbind (delete_BNode h8 it) (\<lambda>h9.
     Inr (h9,
          (if ip \<noteq> None then b else b\<lparr>root := s\<rparr>)\<lparr>numElements :=
             numElements (if ip \<noteq> None then b else b\<lparr>root := s\<rparr>) - 1\<rparr>,
          s)))))))))))))))))))))"

definition BST_erase ::
  "nat \<Rightarrow> 'a heap \<Rightarrow> BST \<Rightarrow> ptr \<Rightarrow> fault + ('a heap \<times> BST \<times> ptr)" where
  "BST_erase fuel h b it =
     (if it = None then Inr (h, b, it)
      else
      rbind (get_pRight h it) (\<lambda>r.
      rbind (get_pLeft h it) (\<lambda>l.
      if r = None \<and> l = None then
        rbind (incr fuel h it) (\<lambda>itNext.
        rbind (relink_parent h it None) (\<lambda>h1.
        rbind (delete_BNode h1 it) (\<lambda>h2.
        Inr (h2, b\<lparr>numElements := numElements b - 1\<rparr>, itNext))))
      else if r = None \<and> l \<noteq> None then
        rbind (incr fuel h it) (\<lambda>itNext.
        rbind (get_pParent h it) (\<lambda>pp.
        rbind (set_pParent h l pp) (\<lambda>h1.
        rbind (get_pLeft h1 it) (\<lambda>l1.
        rbind (relink_parent h1 it l1) (\<lambda>h2.
        rbind (delete_BNode h2 it) (\<lambda>h3.
        Inr (h3, b\<lparr>numElements := numElements b - 1\<rparr>, itNext)))))))
      else if l = None \<and> r \<noteq> None then
        rbind (incr fuel h it) (\<lambda>itNext.
        rbind (get_pParent h it) (\<lambda>pp.
        rbind (set_pParent h r pp) (\<lambda>h1.
        rbind (get_pRight h1 it) (\<lambda>r1.
        rbind (relink_parent h1 it r1) (\<lambda>h2.
        rbind (delete_BNode h2 it) (\<lambda>h3.
        Inr (h3, b\<lparr>numElements := numElements b - 1\<rparr>, itNext)))))))
      else if r \<noteq> None \<and> l \<noteq> None then erase_two_children fuel h b it
      else Inr (h, b, it))))"

text \<open>\<^verbatim>\<open>BST::_clear\<close> and \<^verbatim>\<open>BST::clear\<close>.\<close>

fun priv_clear :: "nat \<Rightarrow> 'a heap \<Rightarrow> BST \<Rightarrow> slot \<Rightarrow> fault + ('a heap \<times> BST)" where
  "priv_clear 0 h b pThis = Inl OutOfFuel"
| "priv_clear (Suc k) h b pThis =
     rbind (slot_get h b pThis) (\<lambda>p.
     if p = None then Inr (h, b)
     else
     rbind (child_slot True p) (\<lambda>sl.
     rbind (priv_clear k h b sl) (\<lambda>(h1, b1).
     rbind (slot_get h1 b1 pThis) (\<lambda>p1.
     rbind (child_slot False p1) (\<lambda>sr.
     rbind (priv_clear k h1 b1 sr) (\<lambda>(h2, b2).
     rbind (slot_get h2 b2 pThis) (\<lambda>p2.
     rbind (delete_BNode h2 p2) (\<lambda>h3.
     slot_set h3 b2 pThis None))))))))"

definition BST_clear :: "nat \<Rightarrow> 'a heap \<Rightarrow> BST \<Rightarrow> fault + ('a heap \<times> BST)" where
  "BST_clear fuel h b = priv_clear fuel h (b\<lparr>numElements := 0\<rparr>) RootSlot"

text \<open>\<^verbatim>\<open>BST::swap\<close>, the move constructor \<^verbatim>\<open>BST(BST&& rhs)\<close> and the
  move assignment \<^verbatim>\<open>operator=(BST&& rhs)\<close>. Each returns the object itself first
  and \<^verbatim>\<open>rhs\<close> second; the two are distinct objects.\<close>

definition BST_swap :: "BST \<Rightarrow> BST \<Rightarrow> BST \<times> BST" where
  "BST_swap this rhs =
     (this\<lparr>root := root rhs, numElements := numElements rhs\<rparr>,
      rhs\<lparr>root := root this, numElements := numElements this\<rparr>)"

definition BST_move_ctor :: "BST \<Rightarrow> BST \<times> BST" where
  "BST_move_ctor rhs =
     (\<lparr>root = root rhs, numElements = numElements rhs\<rparr>,
      rhs\<lparr>root := None, numElements := 0\<rparr>)"

definition BST_move_assign ::
  "nat \<Rightarrow> 'a heap \<Rightarrow> BST \<Rightarrow> BST \<Rightarrow> fault + ('a heap \<times> BST \<times> BST)" where
  "BST_move_assign fuel h this rhs =
     rbind (BST_clear fuel h this) (\<lambda>(h1, this1).
       case BST_swap this1 rhs of (this2, rhs2) \<Rightarrow> Inr (h1, this2, rhs2))"

section \<open>The map adapter\<close>

text \<open>
  \<^verbatim>\<open>custom::map<K, V>\<close> holds a \<^verbatim>\<open>BST<pair<K, V>>\<close>. The header
  \<^verbatim>\<open>pair.h\<close> with \<^verbatim>\<open>custom::pair\<close> is not among the sources.
\<close>

text \<open>Modelled from the spec: the comparison operators of \<^verbatim>\<open>custom::pair\<close>
  (\<^verbatim>\<open>pair.h\<close> is missing); the map "compares and orders strictly by key".\<close>

definition pair_cmp :: "(('k::linorder) \<times> 'v) cmp" where
  "pair_cmp = \<lparr>equal_to = (\<lambda>a b. fst a = fst b), less_than = (\<lambda>a b. fst a < fst b)\<rparr>"

text \<open>\<^verbatim>\<open>map::insert(const Pairs & rhs)\<close> calls \<^verbatim>\<open>bst.insert(rhs)\<close>: the
  second argument is left to its default, \<^verbatim>\<open>keepUnique = false\<close>. The range
  overload \<^verbatim>\<open>insert(Iterator first, Iterator last)\<close> and
  \<^verbatim>\<open>operator[]\<close> call \<^verbatim>\<open>bst.insert(x, true)\<close>.\<close>

definition map_insert ::
  "nat \<Rightarrow> (('k::linorder) \<times> 'v) heap \<Rightarrow> BST \<Rightarrow> 'k \<times> 'v \<Rightarrow>
   fault + (('k \<times> 'v) heap \<times> BST \<times> ptr \<times> bool)" where
  "map_insert fuel h bst rhs =
     rbind (BST_insert fuel pair_cmp h bst rhs False) (\<lambda>(h1, bst1, it, wasNewNodeCreated).
       Inr (h1, bst1, it, wasNewNodeCreated))"

text \<open>\<^verbatim>\<open>map::insert(Iterator first, Iterator last)\<close>:
  \<^verbatim>\<open>for (auto it = first; it != last; it++) bst.insert(*it, true);\<close>\<close>

fun map_insert_range ::
  "nat \<Rightarrow> (('k::linorder) \<times> 'v) heap \<Rightarrow> BST \<Rightarrow> ('k \<times> 'v) list \<Rightarrow>
   fault + (('k \<times> 'v) heap \<times> BST)" where
  "map_insert_range fuel h bst [] = Inr (h, bst)"
| "map_insert_range fuel h bst (x # xs) =
     rbind (BST_insert fuel pair_cmp h bst x True) (\<lambda>(h1, bst1, it, inserted).
       map_insert_range fuel h1 bst1 xs)"

definition map_size :: "BST \<Rightarrow> 64 word" where
  "map_size bst = BST_size bst"

definition map_find ::
  "nat \<Rightarrow> (('k::linorder) \<times> 'v) heap \<Rightarrow> BST \<Rightarrow> 'k \<times> 'v \<Rightarrow> fault + ptr" where
  "map_find fuel h bst k = BST_find fuel pair_cmp h bst k"

section \<open>Driving the tree\<close>

text \<open>A sequence of \<^verbatim>\<open>insert(t, keepUnique)\<close> calls on one tree.\<close>

fun insert_seq ::
  "nat \<Rightarrow> 'a cmp \<Rightarrow> bool \<Rightarrow> 'a list \<Rightarrow> 'a heap \<Rightarrow> BST \<Rightarrow> fault + ('a heap \<times> BST)" where
  "insert_seq fuel c keepUnique [] h b = Inr (h, b)"
| "insert_seq fuel c keepUnique (t # ts) h b =
     rbind (BST_insert fuel c h b t keepUnique) (\<lambda>(h1, b1, it, inserted).
       insert_seq fuel c keepUnique ts h1 b1)"

text \<open>The loop \<^verbatim>\<open>for (it = begin(); it != end(); ++it) visit(*it);\<close> cut off after
  \<open>k\<close> elements: the values visited so far and the iterator reached.\<close>

fun walk :: "nat \<Rightarrow> nat \<Rightarrow> 'a heap \<Rightarrow> ptr \<Rightarrow> fault + ('a list \<times> ptr)" where
  "walk 0 fuel h it = Inr ([], it)"
| "walk (Suc k) fuel h it =
     (if it = BST_end then Inr ([], it)
      else
      rbind (get_data h it) (\<lambda>v.
      rbind (incr fuel h it) (\<lambda>it1.
      rbind (walk k fuel h it1) (\<lambda>(vs, it2). Inr (v # vs, it2)))))"

definition traverse ::
  "nat \<Rightarrow> nat \<Rightarrow> fault + ('a heap \<times> BST) \<Rightarrow> fault + ('a list \<times> ptr)" where
  "traverse k fuel r =
     rbind r (\<lambda>(h, b). rbind (BST_begin fuel h b) (\<lambda>it. walk k fuel h it))"

text \<open>\<^verbatim>\<open>erase(find(v))\<close>.\<close>

definition erase_found ::
  "nat \<Rightarrow> 'a cmp \<Rightarrow> 'a heap \<Rightarrow> BST \<Rightarrow> 'a \<Rightarrow> fault + ('a heap \<times> BST \<times> ptr)" where
  "erase_found fuel c h b v = rbind (BST_find fuel c h b v) (\<lambda>it. BST_erase fuel h b it)"

text \<open>Observations of a result: the result without the heap; value and colour of the
  root and of its two children; value and links of the node at an address; the nodes at
  the first \<open>n\<close> addresses.\<close>

definition outcome :: "fault + ('a heap \<times> 'b) \<Rightarrow> fault + 'b" where
  "outcome r = rbind r (\<lambda>(h, x). Inr x)"

definition node_view :: "'a heap \<Rightarrow> ptr \<Rightarrow> fault + ('a \<times> bool)" where
  "node_view h p = rbind (deref h p) (\<lambda>n. Inr (data n, isRed n))"

definition top3 ::
  "fault + ('a heap \<times> BST) \<Rightarrow> fault + (('a \<times> bool) \<times> ('a \<times> bool) \<times> ('a \<times> bool))" where
  "top3 r =
     rbind r (\<lambda>(h, b).
     rbind (node_view h (root b)) (\<lambda>top.
     rbind (get_pLeft h (root b)) (\<lambda>l.
     rbind (node_view h l) (\<lambda>lv.
     rbind (get_pRight h (root b)) (\<lambda>r.
     rbind (node_view h r) (\<lambda>rv. Inr (top, lv, rv)))))))"

definition links :: "fault + ('a heap \<times> BST) \<Rightarrow> nat \<Rightarrow> fault + ('a \<times> ptr \<times> ptr \<times> ptr)" where
  "links r a =
     rbind r (\<lambda>(h, b).
     rbind (deref h (Some a)) (\<lambda>n. Inr (data n, pLeft n, pRight n, pParent n)))"

definition dump :: "fault + ('a heap \<times> BST) \<Rightarrow> nat \<Rightarrow> fault + (BST \<times> nat \<times> 'a BNode option list)" where
  "dump r n = rbind r (\<lambda>(h, b). Inr (b, nxt h, map (cells h) [0..<n]))"

section \<open>Trees in the heap\<close>

text \<open>
  \<open>tree_at h p t\<close>: following the child pointers from \<open>p\<close> in heap \<open>h\<close> unfolds to
  the finite binary tree \<open>t\<close>, whose nodes carry the address and the value stored there.
  \<open>addrs\<close> and \<open>elems\<close> list the addresses and the values in order.
\<close>

datatype 'a shape = Tip | Br "'a shape" nat 'a "'a shape"

fun tree_at :: "'a heap \<Rightarrow> ptr \<Rightarrow> 'a shape \<Rightarrow> bool" where
  "tree_at h p Tip = (p = None)"
| "tree_at h p (Br l a v r) =
     (p = Some a \<and>
      (case cells h a of None \<Rightarrow> False
       | Some n \<Rightarrow> data n = v \<and> tree_at h (pLeft n) l \<and> tree_at h (pRight n) r))"

fun addrs :: "'a shape \<Rightarrow> nat list" where
  "addrs Tip = []"
| "addrs (Br l a v r) = addrs l @ a # addrs r"

fun elems :: "'a shape \<Rightarrow> 'a list" where
  "elems Tip = []"
| "elems (Br l a v r) = elems l @ v # elems r"

fun depth_of :: "'a shape \<Rightarrow> nat" where
  "depth_of Tip = 0"
| "depth_of (Br l a v r) = Suc (max (depth_of l) (depth_of r))"

text \<open>\<open>unfolds_to r t\<close>: the calls \<open>r\<close> returned a heap and an object whose
  \<^verbatim>\<open>root\<close> unfolds to the tree \<open>t\<close>.\<close>

definition unfolds_to :: "fault + ('a heap \<times> BST) \<Rightarrow> 'a shape \<Rightarrow> bool" where
  "unfolds_to r t = (case r of Inl e \<Rightarrow> False | Inr (h, b) \<Rightarrow> tree_at h (root b) t)"

text \<open>\<open>parent_chain h n p\<close>: the parent pointers from \<open>p\<close> reach \<^verbatim>\<open>nullptr\<close>
  within \<open>n\<close> steps through allocated nodes, so \<open>p\<close> lies at depth at most \<open>n\<close>.\<close>

fun parent_chain :: "'a heap \<Rightarrow> nat \<Rightarrow> ptr \<Rightarrow> bool" where
  "parent_chain h 0 p = (p = None)"
| "parent_chain h (Suc n) p =
     (case p of None \<Rightarrow> True
      | Some a \<Rightarrow> (case cells h a of None \<Rightarrow> False | Some nd \<Rightarrow> parent_chain h n (pParent nd)))"

text \<open>A computation finishes when it does not run out of fuel.\<close>

definition finishes :: "fault + 'a \<Rightarrow> bool" where
  "finishes m = (m \<noteq> Inl OutOfFuel)"

text \<open>
  Well-formed heaps for \<^verbatim>\<open>balance\<close>. \<open>good D h\<close>: \<open>D\<close> is the set of allocated
  addresses and every pointer stored in a node is \<^verbatim>\<open>nullptr\<close> or the address of an
  allocated node. \<open>chain_exact h n p\<close>: the parent pointers from \<open>p\<close> reach
  \<^verbatim>\<open>nullptr\<close> in exactly \<open>n\<close> steps. \<open>roots_black h this\<close>: every node without
  parent, \<open>this\<close> apart, is black. \<open>nulls S h h'\<close>: outside \<open>S\<close> no parent pointer
  has become \<^verbatim>\<open>nullptr\<close> from \<open>h\<close> to \<open>h'\<close>.
\<close>

definition inD :: "nat set \<Rightarrow> ptr \<Rightarrow> bool" where
  "inD D p = (case p of None \<Rightarrow> False | Some a \<Rightarrow> a \<in> D)"

definition okD :: "nat set \<Rightarrow> ptr \<Rightarrow> bool" where
  "okD D p = (case p of None \<Rightarrow> True | Some a \<Rightarrow> a \<in> D)"

definition good :: "nat set \<Rightarrow> 'a heap \<Rightarrow> bool" where
  "good D h =
     ((\<forall>a. (cells h a \<noteq> None) = (a \<in> D)) \<and>
      (\<forall>a n. cells h a = Some n \<longrightarrow>
         okD D (pLeft n) \<and> okD D (pRight n) \<and> okD D (pParent n)))"

definition nulls :: "ptr set \<Rightarrow> 'a heap \<Rightarrow> 'a heap \<Rightarrow> bool" where
  "nulls S h h' =
     (\<forall>x. x \<notin> S \<longrightarrow> get_pParent h' x = Inr None \<longrightarrow> get_pParent h x = Inr None)"

fun chain_exact :: "'a heap \<Rightarrow> nat \<Rightarrow> ptr \<Rightarrow> bool" where
  "chain_exact h 0 p = (p = None)"
| "chain_exact h (Suc n) p =
     (case p of None \<Rightarrow> False
      | Some a \<Rightarrow> (case cells h a of None \<Rightarrow> False | Some nd \<Rightarrow> chain_exact h n (pParent nd)))"

definition roots_black :: "'a heap \<Rightarrow> ptr \<Rightarrow> bool" where
  "roots_black h this =
     (\<forall>x nd. cells h x = Some nd \<and> pParent nd = None \<and> Some x \<noteq> this \<longrightarrow> \<not> isRed nd)"

text \<open>\<open>link_site\<close> repeats the comparisons of \<^verbatim>\<open>_insert\<close> without writing: the
  node under which the new node is linked, and whether it becomes the left child.\<close>

fun link_site ::
  "nat \<Rightarrow> 'a cmp \<Rightarrow> 'a heap \<Rightarrow> ptr \<Rightarrow> 'a \<Rightarrow> bool \<Rightarrow> (nat \<times> bool) option" where
  "link_site 0 c h p t keepUnique = None"
| "link_site (Suc k) c h p t keepUnique =
     (case p of None \<Rightarrow> None
      | Some a \<Rightarrow>
        (case cells h a of None \<Rightarrow> None
         | Some n \<Rightarrow>
           if keepUnique \<and> equal_to c t (data n) then None
           else if less_than c t (data n)
           then (if pLeft n \<noteq> None then link_site k c h (pLeft n) t keepUnique
                 else Some (a, True))
           else (if pRight n \<noteq> None then link_site k c h (pRight n) t keepUnique
                 else Some (a, False))))"

text \<open>What \<^verbatim>\<open>_clear\<close> through the slot \<open>s\<close> leaves behind when it frees the
  addresses \<open>S\<close>: every other node is untouched, and the slot holds \<^verbatim>\<open>nullptr\<close>.\<close>

fun slot_owner :: "slot \<Rightarrow> nat option" where
  "slot_owner RootSlot = None"
| "slot_owner (LeftSlot q) = Some q"
| "slot_owner (RightSlot q) = Some q"

definition cleared :: "'a heap \<Rightarrow> BST \<Rightarrow> slot \<Rightarrow> nat set \<Rightarrow> 'a heap \<Rightarrow> BST \<Rightarrow> bool" where
  "cleared h b s S h' b' =
     ((\<forall>a. a \<notin> S \<and> Some a \<noteq> slot_owner s \<longrightarrow> cells h' a = cells h a) \<and>
      (\<forall>a \<in> S. cells h' a = None) \<and>
      (case s of
         RootSlot \<Rightarrow> b' = b\<lparr>root := None\<rparr>
       | LeftSlot q \<Rightarrow>
           b' = b \<and> (\<exists>n. cells h q = Some n \<and> cells h' q = Some (n\<lparr>pLeft := None\<rparr>))
       | RightSlot q \<Rightarrow>
           b' = b \<and> (\<exists>n. cells h q = Some n \<and> cells h' q = Some (n\<lparr>pRight := None\<rparr>))))"

section \<open>Sample heaps\<close>

text \<open>The tree that the inserts 20, 10, 30 build: 20 at address 0, 10 at address 1, 30
  at address 2.\<close>

definition three_heap :: "int heap" where
  "three_heap =
     \<lparr>cells = (\<lambda>_. None)
        (0 \<mapsto> \<lparr>data = 20, pLeft = Some 1, pRight = Some 2, pParent = None, isRed = False\<rparr>,
         1 \<mapsto> \<lparr>data = 10, pLeft = None, pRight = None, pParent = Some 0, isRed = True\<rparr>,
         2 \<mapsto> \<lparr>data = 30, pLeft = None, pRight = None, pParent = Some 0, isRed = True\<rparr>),
      nxt = 3\<rparr>"

definition three_bst :: BST where
  "three_bst = \<lparr>root = Some 0, numElements = 3\<rparr>"

definition three_shape :: "int shape" where
  "three_shape = Br (Br Tip 1 10 Tip) 0 20 (Br Tip 2 30 Tip)"

text \<open>The same tree after \<^verbatim>\<open>_insert\<close> has linked a new red node 5 under 10 and
  before it calls \<^verbatim>\<open>balance\<close> on it.\<close>

definition four_heap :: "int heap" where
  "four_heap =
     \<lparr>cells = (\<lambda>_. None)
        (0 \<mapsto> \<lparr>data = 20, pLeft = Some 1, pRight = Some 2, pParent = None, isRed = False\<rparr>,
         1 \<mapsto> \<lparr>data = 10, pLeft = Some 3, pRight = None, pParent = Some 0, isRed = True\<rparr>,
         2 \<mapsto> \<lparr>data = 30, pLeft = None, pRight = None, pParent = Some 0, isRed = True\<rparr>,
         3 \<mapsto> \<lparr>data = 5, pLeft = None, pRight = None, pParent = Some 1, isRed = True\<rparr>),
      nxt = 4\<rparr>"

text \<open>The state that the inserts 20, 10, 30, 5, 7 build (20 at address 0, 10 at 1, 30 at
  2, 5 at 3, 7 at 4): the last insert runs case 4c of \<^verbatim>\<open>balance\<close> on 7, with parent
  5, grandparent 10 and great-grandparent 20.\<close>

definition after_five_inserts :: "fault + (int heap \<times> BST)" where
  "after_five_inserts = insert_seq 10 val_cmp True [20, 10, 30, 5, 7] empty_heap BST_ctor"

text \<open>Two one-node trees in one heap: value 1 at address 0, value 2 at address 1.\<close>

definition two_heap :: "int heap" where
  "two_heap =
     \<lparr>cells = (\<lambda>_. None)
        (0 \<mapsto> \<lparr>data = 1, pLeft = None, pRight = None, pParent = None, isRed = False\<rparr>,
         1 \<mapsto> \<lparr>data = 2, pLeft = None, pRight = None, pParent = None, isRed = False\<rparr>),
      nxt = 2\<rparr>"

section \<open>Basic facts\<close>

lemma rbind_Inr [simp]: "rbind (Inr x) f = f x"
  by (simp add: rbind_def)

lemma rbind_Inl [simp]: "rbind (Inl e) f = Inl e"
  by (simp add: rbind_def)

lemma rbind_eq_Inr: "(rbind m f = Inr y) = (\<exists>x. m = Inr x \<and> f x = Inr y)"
  by (cases m) simp_all

lemma deref_None [simp]: "deref h None = Inl NullDeref"
  by (simp add: deref_def)

lemma deref_Some: "cells h a = Some n \<Longrightarrow> deref h (Some a) = Inr n"
  by (simp add: deref_def)

lemma deref_eq_Inr: "(deref h p = Inr n) = (\<exists>a. p = Some a \<and> cells h a = Some n)"
  by (auto simp: deref_def split: option.splits)

lemma outcome_Inr: "outcome r = Inr x \<Longrightarrow> \<exists>h. r = Inr (h, x)"
  by (cases r) (auto simp: outcome_def)

section \<open>The sample heaps are states of the program\<close>

lemma three_heap_reached:
  "dump (insert_seq 10 val_cmp True [20, 10, 30] empty_heap BST_ctor) 4 =
   dump (Inr (three_heap, three_bst)) 4"
  by code_simp

lemma four_heap_reached:
  "dump (rbind (addLeft_value three_heap (Some 1) 5) (\<lambda>h. Inr (h, three_bst))) 5 =
   dump (Inr (four_heap, three_bst)) 5"
  by code_simp

section \<open>In-order iteration after inserts (C1)\<close>

lemma insert_10:
  "insert_seq n val_cmp True [10::int] empty_heap BST_ctor =
   Inr (\<lparr>cells = (\<lambda>_. None)(0 \<mapsto>
           \<lparr>data = 10, pLeft = None, pRight = None, pParent = None, isRed = False\<rparr>),
         nxt = Suc 0\<rparr>,
        \<lparr>root = Some 0, numElements = 1\<rparr>)"
  by (simp add: BST_insert_def new_BNode_def set_isRed_def store_def empty_heap_def
      BST_ctor_def)

lemma walk_10:
  "walk k f \<lparr>cells = (\<lambda>_. None)(0 \<mapsto>
        \<lparr>data = 10::int, pLeft = None, pRight = None, pParent = None, isRed = False\<rparr>),
      nxt = Suc 0\<rparr> (Some 0) = Inr (replicate k 10, Some 0)"
  by (induction k)
     (simp_all add: BST_end_def incr_def get_data_def get_pRight_def get_pParent_def
       isLeftChild_def isRightChild_def deref_def)

lemma traverse_10:
  "traverse k (Suc f) (insert_seq n val_cmp True [10::int] empty_heap BST_ctor) =
   Inr (replicate k 10, Some 0)"
  unfolding traverse_def insert_10
  by (simp add: walk_10 BST_begin_def BST_empty_def get_pLeft_def deref_def)

lemma traverse_after_rotation:
  "traverse 4 10 (insert_seq 10 val_cmp True [20, 10, 30, 25, 22 :: int] empty_heap BST_ctor) =
   Inr ([22, 25, 30, 20], Some 2)"
  by code_simp

text \<open>
  C1 (the code departs from the claim). The claim: after any sequence of
  \<^verbatim>\<open>insert(t, true)\<close> calls on an empty tree, the loop from \<^verbatim>\<open>begin()\<close> to
  \<^verbatim>\<open>end()\<close> visits the distinct inserted values once each, in strictly increasing
  order. The code at the input "insert 10": the loop visits 10 again and again; after any
  number \<open>k\<close> of steps it has visited \<open>k\<close> times the value 10 and the iterator is still
  at the root, not at \<^verbatim>\<open>end()\<close>, because \<^verbatim>\<open>operator++\<close> leaves an iterator
  at a root without right child where it is. The code at the input "insert 20, 10, 30, 25,
  22": the first four values visited are 22, 25, 30, 20, which is not increasing (the
  rotation of the last insert hooks the rotated subtree into the wrong slot of node 20).
\<close>

theorem iteration_after_inserts_not_sorted:
  "traverse k (Suc f) (insert_seq n val_cmp True [10::int] empty_heap BST_ctor) =
     Inr (replicate k 10, Some 0) \<and>
   traverse 4 10 (insert_seq 10 val_cmp True [20, 10, 30, 25, 22 :: int] empty_heap BST_ctor) =
     Inr ([22, 25, 30, 20], Some 2)"
  using traverse_10 traverse_after_rotation by simp

section \<open>Reattaching the rotated subtree (C2)\<close>

text \<open>
  C2 (the code departs from the claim). The claim: after a rotation the new top of the
  rotated subtree hangs in the child slot of the great-grandparent that the grandparent
  occupied. The code at the input "insert 20, 10, 30, 25, then 22": before the last insert
  node 20 (address 0) has 10 (address 1) on the left and 30 (address 2) on the right, and
  30 has 25 (address 3) as left child. Inserting 22 under 25 is case 4a with grandparent
  30, the right child of 20. Afterwards the new top 25 is the left child of 20, the old
  grandparent 30 is still its right child, and 10 is no longer a child of 20.
\<close>

theorem rotation_hooks_into_wrong_slot:
  "links (insert_seq 10 val_cmp True [20, 10, 30, 25 :: int] empty_heap BST_ctor) 0 =
     Inr (20, Some 1, Some 2, None) \<and>
   links (insert_seq 10 val_cmp True [20, 10, 30, 25 :: int] empty_heap BST_ctor) 2 =
     Inr (30, Some 3, None, Some 0) \<and>
   links (insert_seq 10 val_cmp True [20, 10, 30, 25, 22 :: int] empty_heap BST_ctor) 0 =
     Inr (20, Some 3, Some 2, None) \<and>
   links (insert_seq 10 val_cmp True [20, 10, 30, 25, 22 :: int] empty_heap BST_ctor) 3 =
     Inr (25, Some 4, Some 2, Some 0)"
  by code_simp

section \<open>Erasing a found value (C3)\<close>

text \<open>
  C3 (the code departs from the claim). The claim: \<^verbatim>\<open>erase(find(v))\<close> removes
  \<open>v\<close> and lowers the size by one wherever \<open>v\<close> sits, also at a root with no, one or
  two children. The code at a root without children (the tree holding only 10) and at a
  root with one child (the tree built from 10, 5): \<^verbatim>\<open>erase\<close> writes through
  \<^verbatim>\<open>it.pNode->pParent\<close>, which is \<^verbatim>\<open>nullptr\<close> at the root.
\<close>

theorem erase_root_dereferences_null:
  "outcome (rbind (insert_seq 10 val_cmp True [10 :: int] empty_heap BST_ctor)
      (\<lambda>(h, b). erase_found 10 val_cmp h b 10)) = Inl NullDeref \<and>
   outcome (rbind (insert_seq 10 val_cmp True [10, 5 :: int] empty_heap BST_ctor)
      (\<lambda>(h, b). erase_found 10 val_cmp h b 10)) = Inl NullDeref"
  by code_simp

section \<open>Incrementing the last iterator (C4)\<close>

lemma begin_empty: "BST_begin fuel h BST_ctor = Inr BST_end"
  by (simp add: BST_begin_def BST_empty_def BST_ctor_def)

lemma incr_single_root:
  "rbind (insert_seq 10 val_cmp True [10 :: int] empty_heap BST_ctor)
     (\<lambda>(h, b). rbind (BST_begin 10 h b) (\<lambda>it. incr 10 h it)) = Inr (Some 0)"
  by code_simp

text \<open>
  C4 (the code departs from the claim). The claim: \<^verbatim>\<open>begin()\<close> of an empty tree is
  \<^verbatim>\<open>end()\<close>, and \<^verbatim>\<open>++\<close> on the iterator at the last element gives
  \<^verbatim>\<open>end()\<close>, also when the last element is the root. The first part holds. The code
  at the tree holding only 10: the last element is the root at address 0, and \<^verbatim>\<open>++\<close>
  returns the iterator at address 0 again, which is not \<^verbatim>\<open>end()\<close>.
\<close>

theorem increment_at_last_root_stays:
  "BST_begin fuel h BST_ctor = Inr BST_end \<and>
   rbind (insert_seq 10 val_cmp True [10 :: int] empty_heap BST_ctor)
     (\<lambda>(h, b). rbind (BST_begin 10 h b) (\<lambda>it. incr 10 h it)) = Inr (Some 0) \<and>
   Some 0 \<noteq> BST_end"
  using begin_empty incr_single_root by (simp add: BST_end_def)

section \<open>Inserting 10, 20, 30 (C5)\<close>

lemma ascending_three_unique:
  "top3 (insert_seq 10 val_cmp True [10, 20, 30 :: int] empty_heap BST_ctor) =
   Inr ((20, False), (10, True), (30, True))"
  by code_simp

lemma ascending_three_default:
  "top3 (insert_seq 10 val_cmp False [10, 20, 30 :: int] empty_heap BST_ctor) =
   Inr ((20, False), (10, True), (30, True))"
  by code_simp

text \<open>
  C5 as stated is false: after inserting 10, 20, 30 the children of the root are not both
  black.
\<close>

theorem ascending_three_children_not_black:
  "top3 (insert_seq 10 val_cmp False [10, 20, 30 :: int] empty_heap BST_ctor) \<noteq>
   Inr ((20, False), (10, False), (30, False))"
  by code_simp

text \<open>
  C5, amended: inserting 10, 20, 30 in increasing order into an empty tree (with either
  value of \<^verbatim>\<open>keepUnique\<close>) yields a tree whose root holds 20 and is black, with 10 as
  its left child and 30 as its right child, both coloured red.
\<close>

theorem ascending_three_children_red:
  "top3 (insert_seq 10 val_cmp keepUnique [10, 20, 30 :: int] empty_heap BST_ctor) =
   Inr ((20, False), (10, True), (30, True))"
  using ascending_three_unique ascending_three_default by (cases keepUnique) simp_all

section \<open>Inserting a key twice into the map (C6)\<close>

lemma map_insert_twice:
  "rbind (map_insert 10 empty_heap BST_ctor (1::int, ''a'')) (\<lambda>(h1, b1, it1, ins1).
   rbind (map_insert 10 h1 b1 (1, ''b'')) (\<lambda>(h2, b2, it2, ins2).
   rbind (map_find 10 h2 b2 (1, [])) (\<lambda>it.
   rbind (get_data h2 it) (\<lambda>kv.
     Inr (ins1, ins2, map_size b2, kv))))) = Inr (True, True, 2, (1, ''a''))"
  by code_simp

lemma map_insert_range_twice:
  "rbind (map_insert_range 10 empty_heap BST_ctor [(1::int, ''a''), (1, ''b'')]) (\<lambda>(h, b).
   rbind (map_find 10 h b (1, [])) (\<lambda>it.
   rbind (get_data h it) (\<lambda>kv.
     Inr (map_size b, kv)))) = Inr (1, (1, ''a''))"
  by code_simp

text \<open>
  C6 (the code departs from the claim). The claim: inserting (1, "a") and then (1, "b")
  into an empty map reports \<open>inserted = false\<close> for the second insert and leaves the size
  at 1. The code: \<^verbatim>\<open>map::insert\<close> forwards with \<^verbatim>\<open>keepUnique = false\<close>, the
  second insert reports \<open>true\<close> and the size is 2; looking key 1 up still finds "a". The
  range overload of \<^verbatim>\<open>map::insert\<close>, which forwards with \<^verbatim>\<open>keepUnique = true\<close>,
  leaves the size at 1 on the same two pairs.
\<close>

theorem map_insert_same_key_twice:
  "rbind (map_insert 10 empty_heap BST_ctor (1::int, ''a'')) (\<lambda>(h1, b1, it1, ins1).
   rbind (map_insert 10 h1 b1 (1, ''b'')) (\<lambda>(h2, b2, it2, ins2).
   rbind (map_find 10 h2 b2 (1, [])) (\<lambda>it.
   rbind (get_data h2 it) (\<lambda>kv.
     Inr (ins1, ins2, map_size b2, kv))))) = Inr (True, True, 2, (1, ''a'')) \<and>
   rbind (map_insert_range 10 empty_heap BST_ctor [(1::int, ''a''), (1, ''b'')]) (\<lambda>(h, b).
   rbind (map_find 10 h b (1, [])) (\<lambda>it.
   rbind (get_data h it) (\<lambda>kv.
     Inr (map_size b, kv)))) = Inr (1, (1, ''a''))"
  using map_insert_twice map_insert_range_twice by simp

section \<open>Finding an absent value, erasing the end iterator (C7)\<close>

lemma find_loop_absent:
  "tree_at h p t \<Longrightarrow> \<forall>x \<in> set (elems t). \<not> equal_to c x v \<Longrightarrow> depth_of t < fuel \<Longrightarrow>
   find_loop fuel c h p v = Inr BST_end"
proof (induction t arbitrary: p fuel)
  case Tip
  then obtain k where "fuel = Suc k" by (cases fuel) auto
  with Tip show ?case by simp
next
  case (Br l a x r)
  from Br.prems(3) obtain k where k: "fuel = Suc k" "depth_of l < k" "depth_of r < k"
    by (cases fuel) auto
  from Br.prems(1) obtain n where n: "p = Some a" "cells h a = Some n" "data n = x"
    "tree_at h (pLeft n) l" "tree_at h (pRight n) r"
    by (auto split: option.splits)
  have nl: "find_loop k c h (pLeft n) v = Inr BST_end"
    using Br.IH(1) [OF n(4) _ k(2)] Br.prems(2) by simp
  have nr: "find_loop k c h (pRight n) v = Inr BST_end"
    using Br.IH(2) [OF n(5) _ k(3)] Br.prems(2) by simp
  have "\<not> equal_to c x v" using Br.prems(2) by simp
  then show ?case
    using n nl nr by (simp add: k get_data_def get_pLeft_def get_pRight_def deref_Some)
qed

lemma erase_end: "BST_erase fuel h b BST_end = Inr (h, b, BST_end)"
  by (simp add: BST_erase_def BST_end_def)

text \<open>
  C7. For every tree (the child pointers from the root unfold to a finite tree \<open>t\<close>) and
  every value \<open>v\<close> that no stored value equals, \<^verbatim>\<open>find(v)\<close> returns the end
  iterator, given fuel above the depth of the tree; \<^verbatim>\<open>find\<close> has no write, so heap
  and object are what they were. \<^verbatim>\<open>erase(end())\<close> returns heap and object unchanged,
  and the end iterator.
\<close>

theorem find_absent_erase_end:
  "(tree_at h (root b) t \<and> (\<forall>x \<in> set (elems t). \<not> equal_to c x v) \<and> depth_of t < fuel \<longrightarrow>
      BST_find fuel c h b v = Inr BST_end) \<and>
   BST_erase fuel h b BST_end = Inr (h, b, BST_end)"
  using find_loop_absent [of h "root b" t c v fuel] erase_end [of fuel h b]
  by (simp add: BST_find_def)

text \<open>Witness for C7: looking for 42 in the tree of 20, 10, 30.\<close>

theorem find_absent_erase_end_witness:
  "tree_at three_heap (root three_bst) three_shape \<and>
   42 \<notin> set (elems three_shape) \<and>
   depth_of three_shape < 5 \<and>
   BST_find 5 val_cmp three_heap three_bst 42 = Inr BST_end \<and>
   BST_erase 5 three_heap three_bst BST_end = Inr (three_heap, three_bst, BST_end)"
proof -
  have t: "tree_at three_heap (root three_bst) three_shape"
    by (simp add: three_heap_def three_bst_def three_shape_def)
  have a: "\<forall>x \<in> set (elems three_shape). \<not> equal_to val_cmp x 42"
    by (simp add: three_shape_def val_cmp_def)
  have d: "depth_of three_shape < 5"
    by (simp add: three_shape_def)
  have n: "42 \<notin> set (elems three_shape)"
    by (simp add: three_shape_def)
  from find_absent_erase_end [of three_heap three_bst three_shape val_cmp 42 5] t a d n
  show ?thesis by simp
qed

section \<open>balance where the parent pointers reach nullptr\<close>

lemma finishes_Inr [simp]: "finishes (Inr x)"
  by (simp add: finishes_def)

lemma finishes_rbind:
  "finishes m \<Longrightarrow> (\<And>x. m = Inr x \<Longrightarrow> finishes (f x)) \<Longrightarrow> finishes (rbind m f)"
  by (cases m) (simp_all add: finishes_def)

lemma finishes_if:
  "(c \<Longrightarrow> finishes x) \<Longrightarrow> (\<not> c \<Longrightarrow> finishes y) \<Longrightarrow> finishes (if c then x else y)"
  by simp

lemma finishes_deref [simp]: "finishes (deref h p)"
  by (simp add: finishes_def deref_def split: option.splits)

lemma finishes_store [simp]: "finishes (store h p f)"
  by (simp add: finishes_def store_def split: option.splits)

lemma finishes_get [simp]:
  "finishes (get_pLeft h p)" "finishes (get_pRight h p)" "finishes (get_pParent h p)"
  "finishes (get_isRed h p)" "finishes (get_data h p)"
  by (simp_all add: get_pLeft_def get_pRight_def get_pParent_def get_isRed_def get_data_def
      finishes_rbind)

lemma finishes_set [simp]:
  "finishes (set_pLeft h p v)" "finishes (set_pRight h p v)" "finishes (set_pParent h p v)"
  "finishes (set_isRed h p c)"
  by (simp_all add: set_pLeft_def set_pRight_def set_pParent_def set_isRed_def)

lemma finishes_andalso: "finishes a \<Longrightarrow> finishes b \<Longrightarrow> finishes (andalso a b)"
  by (simp add: andalso_def finishes_rbind)

lemma finishes_isChild [simp]: "finishes (isLeftChild h p)" "finishes (isRightChild h p)"
  by (simp_all add: isLeftChild_def isRightChild_def finishes_rbind)

lemma finishes_add [simp]: "finishes (addLeft h p q)" "finishes (addRight h p q)"
  by (simp_all add: addLeft_def addRight_def finishes_rbind)

lemma finishes_shape_test:
  "(\<And>h p. finishes (mine h p)) \<Longrightarrow> (\<And>h p. finishes (moms h p)) \<Longrightarrow>
   finishes (shape_test mine moms h this g)"
  by (simp add: shape_test_def finishes_andalso finishes_rbind)

lemma finishes_hook [simp]:
  "finishes (hook_and_recolor h this g gg)" "finishes (hook_and_recolor_zigzag h this g gg)"
  by (simp_all add: hook_and_recolor_def hook_and_recolor_zigzag_def finishes_rbind)

lemma finishes_case4 [simp]:
  "finishes (case4a h this g gg sib)" "finishes (case4b h this g gg sib)"
  "finishes (case4c h this g gg)" "finishes (case4d h this g gg)"
  by (simp_all add: case4a_def case4b_def case4c_def case4d_def finishes_rbind finishes_shape_test)

lemma finishes_rotate [simp]: "finishes (rotate h this g gg sib)"
  by (simp add: rotate_def finishes_rbind)

lemma parent_chain_frame:
  "\<forall>a. map_option pParent (cells h' a) = map_option pParent (cells h a) \<Longrightarrow>
   parent_chain h' n p = parent_chain h n p"
proof (induction n arbitrary: p)
  case 0
  show ?case by simp
next
  case (Suc n)
  show ?case
  proof (cases p)
    case None
    then show ?thesis by simp
  next
    case (Some a)
    from Suc.prems have "map_option pParent (cells h' a) = map_option pParent (cells h a)" by blast
    then show ?thesis using Some Suc.IH [OF Suc.prems]
      by (cases "cells h a"; cases "cells h' a") auto
  qed
qed

lemma parent_chain_set_isRed:
  "set_isRed h p c = Inr h' \<Longrightarrow> parent_chain h' n q = parent_chain h n q"
  by (rule parent_chain_frame)
     (auto simp: set_isRed_def store_def split: option.splits)

lemma parent_chain_step:
  "parent_chain h n p \<Longrightarrow> get_pParent h p = Inr q \<Longrightarrow> \<exists>m. n = Suc m \<and> parent_chain h m q"
  by (cases n) (auto simp: get_pParent_def deref_eq_Inr rbind_eq_Inr)

lemma balance_finishes:
  "parent_chain h n this \<Longrightarrow> n < fuel \<Longrightarrow> finishes (balance fuel h this)"
proof (induction fuel arbitrary: h n this)
  case 0
  then show ?case by simp
next
  case (Suc k)
  have rec: "finishes (balance k h1 g)"
    if "get_pParent h this = Inr pp" "get_pParent h pp = Inr g" "set_isRed h g True = Inr h1"
    for pp g h1
  proof -
    from parent_chain_step [OF Suc.prems(1) that(1)] obtain m where m: "n = Suc m" "parent_chain h m pp"
      by blast
    from parent_chain_step [OF m(2) that(2)] obtain m' where m': "m = Suc m'" "parent_chain h m' g"
      by blast
    have "parent_chain h1 m' g" using parent_chain_set_isRed [OF that(3)] m'(2) by simp
    moreover have "m' < k" using m m' Suc.prems(2) by simp
    ultimately show ?thesis by (rule Suc.IH)
  qed
  show ?case
    unfolding balance.simps
    by (intro finishes_rbind finishes_if rec) (simp_all add: finishes_rbind)
qed

lemma rbind_cong_r: "(\<And>x. m = Inr x \<Longrightarrow> f x = g x) \<Longrightarrow> rbind m f = rbind m g"
  by (cases m) simp_all

lemma if_cong_r: "(c \<Longrightarrow> x = x') \<Longrightarrow> (\<not> c \<Longrightarrow> y = y') \<Longrightarrow> (if c then x else y) = (if c then x' else y')"
  by simp

lemma balance_fuel_irrelevant:
  "parent_chain h n this \<Longrightarrow> n < f1 \<Longrightarrow> n < f2 \<Longrightarrow> balance f1 h this = balance f2 h this"
proof (induction f1 arbitrary: f2 h n this)
  case 0
  then show ?case by simp
next
  case (Suc k1)
  from Suc.prems(3) obtain k2 where k2: "f2 = Suc k2" by (cases f2) auto
  have rec: "balance k1 h1 g = balance k2 h1 g"
    if "get_pParent h this = Inr pp" "get_pParent h pp = Inr g" "set_isRed h g True = Inr h1"
    for pp g h1
  proof -
    from parent_chain_step [OF Suc.prems(1) that(1)] obtain m where m: "n = Suc m" "parent_chain h m pp"
      by blast
    from parent_chain_step [OF m(2) that(2)] obtain m' where m': "m = Suc m'" "parent_chain h m' g"
      by blast
    have c: "parent_chain h1 m' g" using parent_chain_set_isRed [OF that(3)] m'(2) by simp
    have "m' < k1" "m' < k2" using m m' Suc.prems(2,3) k2 by simp_all
    with c show ?thesis by (rule Suc.IH)
  qed
  show ?case
    unfolding k2 balance.simps
    by (intro rbind_cong_r if_cong_r refl) (simp add: rec)
qed

lemma okD_None [simp]: "okD D None"
  by (simp add: okD_def)

lemma inD_okD: "inD D p \<Longrightarrow> okD D p"
  by (cases p) (simp_all add: inD_def okD_def)

lemma okD_inD: "okD D p \<Longrightarrow> p \<noteq> None \<Longrightarrow> inD D p"
  by (cases p) (simp_all add: inD_def okD_def)

lemma inD_not_None: "inD D p \<Longrightarrow> p \<noteq> None"
  by (cases p) (simp_all add: inD_def)

lemma deref_good:
  "good D h \<Longrightarrow> inD D p \<Longrightarrow>
   \<exists>n. deref h p = Inr n \<and> okD D (pLeft n) \<and> okD D (pRight n) \<and> okD D (pParent n)"
  by (cases p) (auto simp: good_def inD_def deref_def split: option.splits)

lemma get_good:
  assumes "good D h" "inD D p"
  shows "\<exists>v. get_pLeft h p = Inr v \<and> okD D v"
    and "\<exists>v. get_pRight h p = Inr v \<and> okD D v"
    and "\<exists>v. get_pParent h p = Inr v \<and> okD D v"
    and "\<exists>c. get_isRed h p = Inr c"
  using deref_good [OF assms]
  by (auto simp: get_pLeft_def get_pRight_def get_pParent_def get_isRed_def)

lemma store_good:
  assumes "good D h" "inD D p"
    and "\<And>n. okD D (pLeft n) \<and> okD D (pRight n) \<and> okD D (pParent n) \<Longrightarrow>
           okD D (pLeft (f n)) \<and> okD D (pRight (f n)) \<and> okD D (pParent (f n))"
  shows "\<exists>h'. store h p f = Inr h' \<and> good D h'"
proof -
  from assms(2) obtain a where a: "p = Some a" "a \<in> D" by (cases p) (auto simp: inD_def)
  with assms(1) have "cells h a \<noteq> None" by (simp add: good_def)
  then obtain n where n: "cells h a = Some n" by auto
  let ?h = "h\<lparr>cells := (cells h)(a \<mapsto> f n)\<rparr>"
  have "store h p f = Inr ?h" using a n by (simp add: store_def)
  moreover have "good D ?h"
    using assms(1) assms(3) a n unfolding good_def by (auto split: if_splits)
  ultimately show ?thesis by blast
qed

lemma set_good:
  assumes "good D h" "inD D p"
  shows "okD D v \<Longrightarrow> \<exists>h'. set_pLeft h p v = Inr h' \<and> good D h'"
    and "okD D v \<Longrightarrow> \<exists>h'. set_pRight h p v = Inr h' \<and> good D h'"
    and "okD D v \<Longrightarrow> \<exists>h'. set_pParent h p v = Inr h' \<and> good D h'"
    and "\<exists>h'. set_isRed h p c = Inr h' \<and> good D h'"
proof -
  show "okD D v \<Longrightarrow> \<exists>h'. set_pLeft h p v = Inr h' \<and> good D h'"
    unfolding set_pLeft_def by (rule store_good [OF assms]) simp
  show "okD D v \<Longrightarrow> \<exists>h'. set_pRight h p v = Inr h' \<and> good D h'"
    unfolding set_pRight_def by (rule store_good [OF assms]) simp
  show "okD D v \<Longrightarrow> \<exists>h'. set_pParent h p v = Inr h' \<and> good D h'"
    unfolding set_pParent_def by (rule store_good [OF assms]) simp
  show "\<exists>h'. set_isRed h p c = Inr h' \<and> good D h'"
    unfolding set_isRed_def by (rule store_good [OF assms]) simp
qed

lemma store_par:
  "store h p f = Inr h' \<Longrightarrow> (\<And>n. pParent (f n) = pParent n) \<Longrightarrow>
   get_pParent h' x = get_pParent h x"
  by (cases p; cases x)
     (auto simp: store_def get_pParent_def deref_def split: option.splits if_splits)

lemma set_pParent_par:
  "set_pParent h p v = Inr h' \<Longrightarrow> get_pParent h' x = (if x = p then Inr v else get_pParent h x)"
  by (cases p; cases x)
     (auto simp: set_pParent_def store_def get_pParent_def deref_def
           split: option.splits if_splits)

lemma set_other_par:
  "set_pLeft h p v = Inr h' \<Longrightarrow> get_pParent h' x = get_pParent h x"
  "set_pRight h p v = Inr h' \<Longrightarrow> get_pParent h' x = get_pParent h x"
  "set_isRed h p c = Inr h' \<Longrightarrow> get_pParent h' x = get_pParent h x"
  unfolding set_pLeft_def set_pRight_def set_isRed_def
  by (erule store_par, simp)+

lemma add_par:
  "addLeft h p q = Inr h' \<Longrightarrow>
   get_pParent h' x = (if q \<noteq> None \<and> x = q then Inr p else get_pParent h x)"
  "addRight h p q = Inr h' \<Longrightarrow>
   get_pParent h' x = (if q \<noteq> None \<and> x = q then Inr p else get_pParent h x)"
  by (auto simp: addLeft_def addRight_def rbind_eq_Inr set_pParent_par set_other_par
           split: if_splits)

lemma add_good:
  assumes "good D h" "inD D p" "okD D q"
  shows "\<exists>h'. addLeft h p q = Inr h' \<and> good D h'"
    and "\<exists>h'. addRight h p q = Inr h' \<and> good D h'"
proof -
  have "\<exists>h1. (if q \<noteq> None then set_pParent h q p else Inr h) = Inr h1 \<and> good D h1"
    using set_good(3) [of D h q p] assms okD_inD [of D q] inD_okD [of D p] by auto
  then obtain h1 where h1: "(if q \<noteq> None then set_pParent h q p else Inr h) = Inr h1" "good D h1"
    by blast
  from set_good(1) [OF h1(2) assms(2) assms(3)] h1(1)
  show "\<exists>h'. addLeft h p q = Inr h' \<and> good D h'" by (auto simp: addLeft_def)
  from set_good(2) [OF h1(2) assms(2) assms(3)] h1(1)
  show "\<exists>h'. addRight h p q = Inr h' \<and> good D h'" by (auto simp: addRight_def)
qed

lemma isChild_good:
  assumes "good D h" "inD D p"
  shows "\<exists>c. isLeftChild h p = Inr c \<and> (c \<longrightarrow> (\<exists>pp. get_pParent h p = Inr pp \<and> pp \<noteq> None))"
    and "\<exists>c. isRightChild h p = Inr c \<and> (c \<longrightarrow> (\<exists>pp. get_pParent h p = Inr pp \<and> pp \<noteq> None))"
proof -
  from get_good(3) [OF assms] obtain pp where pp: "get_pParent h p = Inr pp" "okD D pp" by blast
  show "\<exists>c. isLeftChild h p = Inr c \<and> (c \<longrightarrow> (\<exists>pp. get_pParent h p = Inr pp \<and> pp \<noteq> None))"
    using pp get_good(1) [OF assms(1) okD_inD [OF pp(2)]]
    by (cases "pp = None") (auto simp: isLeftChild_def)
  show "\<exists>c. isRightChild h p = Inr c \<and> (c \<longrightarrow> (\<exists>pp. get_pParent h p = Inr pp \<and> pp \<noteq> None))"
    using pp get_good(2) [OF assms(1) okD_inD [OF pp(2)]]
    by (cases "pp = None") (auto simp: isRightChild_def)
qed

lemma nulls_refl: "nulls S h h"
  by (simp add: nulls_def)

lemma nulls_trans: "nulls S h h1 \<Longrightarrow> nulls S h1 h2 \<Longrightarrow> nulls S h h2"
  by (simp add: nulls_def)

lemma nulls_mono: "nulls S h h' \<Longrightarrow> S \<subseteq> T \<Longrightarrow> nulls T h h'"
  by (auto simp: nulls_def)

lemma nulls_same: "(\<And>x. get_pParent h' x = get_pParent h x) \<Longrightarrow> nulls S h h'"
  by (simp add: nulls_def)

lemma shape_test_good:
  assumes g: "good D h" and t: "inD D this" and G: "inD D G"
    and mine: "\<And>p. inD D p \<Longrightarrow>
       \<exists>c. mine h p = Inr c \<and> (c \<longrightarrow> (\<exists>pp. get_pParent h p = Inr pp \<and> pp \<noteq> None))"
    and moms: "\<And>p. inD D p \<Longrightarrow>
       \<exists>c. moms h p = Inr c \<and> (c \<longrightarrow> (\<exists>pp. get_pParent h p = Inr pp \<and> pp \<noteq> None))"
  shows "\<exists>c. shape_test mine moms h this G = Inr c \<and>
           (c \<longrightarrow> (\<exists>pp. get_pParent h this = Inr pp \<and> pp \<noteq> None))"
proof -
  from mine [OF t] obtain c1 where c1: "mine h this = Inr c1"
    "c1 \<longrightarrow> (\<exists>pp. get_pParent h this = Inr pp \<and> pp \<noteq> None)" by blast
  show ?thesis
  proof (cases c1)
    case False
    with c1 show ?thesis by (auto simp: shape_test_def andalso_def)
  next
    case True
    with c1 obtain pp where pp: "get_pParent h this = Inr pp" "pp \<noteq> None" by blast
    from get_good(3) [OF g t] pp have ppD: "inD D pp" by (auto intro: okD_inD)
    from moms [OF ppD] obtain c2 where c2: "moms h pp = Inr c2" by blast
    from get_good(4) [OF g ppD] obtain c3 where c3: "get_isRed h pp = Inr c3" by blast
    from get_good(4) [OF g G] obtain c4 where c4: "get_isRed h G = Inr c4" by blast
    show ?thesis using c1 True pp c2 c3 c4 by (auto simp: shape_test_def andalso_def)
  qed
qed

lemma hook_and_recolor_ok:
  assumes g: "good D h" and t: "inD D this" and G: "inD D G" and GG: "okD D GG"
    and p: "get_pParent h this = Inr p" "inD D p" "p \<noteq> this"
  shows "\<exists>h'. hook_and_recolor h this G GG = Inr h' \<and> good D h' \<and>
           (\<forall>x. get_pParent h' x = (if x = p then Inr GG else get_pParent h x))"
proof -
  from set_good(3) [OF g p(2) GG] obtain h1 where h1: "set_pParent h p GG = Inr h1" "good D h1"
    by blast
  have par1: "\<And>x. get_pParent h1 x = (if x = p then Inr GG else get_pParent h x)"
    using set_pParent_par [OF h1(1)] by simp
  have t1: "get_pParent h1 this = Inr p" using par1 p by simp
  have "\<exists>h2. (if GG \<noteq> None
            then rbind (isRightChild h1 G) (\<lambda>rc.
                 rbind (get_pParent h1 this) (\<lambda>p1.
                   if rc then set_pLeft h1 GG p1
                   else set_pRight h1 GG p1))
            else Inr h1) = Inr h2 \<and> good D h2 \<and> (\<forall>x. get_pParent h2 x = get_pParent h1 x)"
  proof (cases "GG = None")
    case True
    then show ?thesis using h1 by simp
  next
    case False
    with GG have GGD: "inD D GG" by (simp add: okD_inD)
    from isChild_good(2) [OF h1(2) G] obtain rc where rc: "isRightChild h1 G = Inr rc" by blast
    from set_good(1) [OF h1(2) GGD inD_okD [OF p(2)]] obtain ha where
      ha: "set_pLeft h1 GG p = Inr ha" "good D ha" by blast
    from set_good(2) [OF h1(2) GGD inD_okD [OF p(2)]] obtain hb where
      hb: "set_pRight h1 GG p = Inr hb" "good D hb" by blast
    show ?thesis
      using False rc t1 ha hb set_other_par(1) [OF ha(1)] set_other_par(2) [OF hb(1)]
      by (cases rc) simp_all
  qed
  then obtain h2 where h2: "(if GG \<noteq> None
            then rbind (isRightChild h1 G) (\<lambda>rc.
                 rbind (get_pParent h1 this) (\<lambda>p1.
                   if rc then set_pLeft h1 GG p1
                   else set_pRight h1 GG p1))
            else Inr h1) = Inr h2" "good D h2" "\<And>x. get_pParent h2 x = get_pParent h1 x"
    by blast
  from set_good(4) [OF h2(2) p(2)] obtain h3 where h3: "set_isRed h2 p False = Inr h3" "good D h3"
    by blast
  from set_good(4) [OF h3(2) G] obtain h4 where h4: "set_isRed h3 G True = Inr h4" "good D h4"
    by blast
  have "hook_and_recolor h this G GG = Inr h4"
    using p(1) h1(1) h2(1) h2(3) t1 h3(1) h4(1) by (simp add: hook_and_recolor_def)
  moreover have "\<forall>x. get_pParent h4 x = (if x = p then Inr GG else get_pParent h x)"
    using set_other_par(3) [OF h4(1)] set_other_par(3) [OF h3(1)] h2(3) par1 by simp
  ultimately show ?thesis using h4(2) by blast
qed

lemma hook_zigzag_ok:
  assumes g: "good D h" and t: "inD D this" and G: "inD D G" and GG: "okD D GG"
  shows "\<exists>h'. hook_and_recolor_zigzag h this G GG = Inr h' \<and> good D h' \<and>
           (\<forall>x. get_pParent h' x =
                 (if x = this \<and> GG = None then Inr None else get_pParent h x))"
proof -
  have "\<exists>h1. (if GG = None then set_pParent h this GG
            else rbind (isRightChild h G) (\<lambda>rc.
                 rbind (get_pParent h this) (\<lambda>p.
                   if rc then set_pRight h GG p
                   else set_pLeft h GG p))) = Inr h1 \<and> good D h1 \<and>
          (\<forall>x. get_pParent h1 x =
                 (if x = this \<and> GG = None then Inr None else get_pParent h x))"
  proof (cases "GG = None")
    case True
    from set_good(3) [OF g t, of None] obtain h1 where
      h1: "set_pParent h this None = Inr h1" "good D h1" by auto
    show ?thesis using True h1 set_pParent_par [OF h1(1)] by simp
  next
    case False
    with GG have GGD: "inD D GG" by (simp add: okD_inD)
    from isChild_good(2) [OF g G] obtain rc where rc: "isRightChild h G = Inr rc" by blast
    from get_good(3) [OF g t] obtain p where p: "get_pParent h this = Inr p" "okD D p" by blast
    from set_good(1) [OF g GGD p(2)] obtain ha where
      ha: "set_pLeft h GG p = Inr ha" "good D ha" by blast
    from set_good(2) [OF g GGD p(2)] obtain hb where
      hb: "set_pRight h GG p = Inr hb" "good D hb" by blast
    show ?thesis
      using False rc p ha hb set_other_par(1) [OF ha(1)] set_other_par(2) [OF hb(1)]
      by (cases rc) auto
  qed
  then obtain h1 where h1: "(if GG = None then set_pParent h this GG
            else rbind (isRightChild h G) (\<lambda>rc.
                 rbind (get_pParent h this) (\<lambda>p.
                   if rc then set_pRight h GG p
                   else set_pLeft h GG p))) = Inr h1" "good D h1"
      "\<And>x. get_pParent h1 x = (if x = this \<and> GG = None then Inr None else get_pParent h x)"
    by blast
  from set_good(4) [OF h1(2) G] obtain h2 where h2: "set_isRed h1 G True = Inr h2" "good D h2"
    by blast
  from set_good(4) [OF h2(2) t] obtain h3 where h3: "set_isRed h2 this False = Inr h3" "good D h3"
    by blast
  have "hook_and_recolor_zigzag h this G GG = Inr h3"
    using h1(1) h2(1) h3(1) by (simp add: hook_and_recolor_zigzag_def)
  moreover have "\<forall>x. get_pParent h3 x =
                 (if x = this \<and> GG = None then Inr None else get_pParent h x)"
    using set_other_par(3) [OF h3(1)] set_other_par(3) [OF h2(1)] h1(3) by simp
  ultimately show ?thesis using h3(2) by blast
qed

lemma straight_body_ok:
  assumes addA_par: "\<And>h p q h' x. addA h p q = Inr h' \<Longrightarrow>
      get_pParent h' x = (if q \<noteq> None \<and> x = q then Inr p else get_pParent h x)"
    and addA_good: "\<And>h p q. good D h \<Longrightarrow> inD D p \<Longrightarrow> okD D q \<Longrightarrow>
      \<exists>h'. addA h p q = Inr h' \<and> good D h'"
    and addB_par: "\<And>h p q h' x. addB h p q = Inr h' \<Longrightarrow>
      get_pParent h' x = (if q \<noteq> None \<and> x = q then Inr p else get_pParent h x)"
    and addB_good: "\<And>h p q. good D h \<Longrightarrow> inD D p \<Longrightarrow> okD D q \<Longrightarrow>
      \<exists>h'. addB h p q = Inr h' \<and> good D h'"
    and g: "good D (h :: 'a heap)" and t: "inD D this" and G: "inD D G" and Gt: "G \<noteq> this"
    and GG: "okD D GG" and sib: "okD D sib"
    and p: "get_pParent h this = Inr P" "inD D P" "P \<noteq> this"
  shows "\<exists>h'. rbind (addA h P G) (\<lambda>h1. rbind (addB h1 G sib) (\<lambda>h2.
                 hook_and_recolor h2 this G GG)) = Inr h' \<and>
           good D h' \<and> nulls {P, G} h h' \<and>
           (get_pParent h' this = Inr P \<or> get_pParent h' this = Inr G)"
proof -
  have Gn: "G \<noteq> None" using G by (rule inD_not_None)
  from addA_good [OF g p(2) inD_okD [OF G]] obtain h1 where
    h1: "addA h P G = Inr h1" "good D h1" by blast
  have par1: "\<And>x. get_pParent h1 x = (if x = G then Inr P else get_pParent h x)"
    using addA_par [OF h1(1)] Gn by simp
  from addB_good [OF h1(2) G sib] obtain h2 where
    h2: "addB h1 G sib = Inr h2" "good D h2" by blast
  have par2: "\<And>x. get_pParent h2 x = (if sib \<noteq> None \<and> x = sib then Inr G else get_pParent h1 x)"
    using addB_par [OF h2(1)] by simp
  define p' where "p' = (if sib = this then G else P)"
  have p': "get_pParent h2 this = Inr p'" "inD D p'" "p' \<noteq> this" "p' = P \<or> p' = G"
    using par2 [of this] par1 [of this] p Gt G t inD_not_None [OF t]
    by (auto simp: p'_def)
  from hook_and_recolor_ok [OF h2(2) t G GG p'(1) p'(2) p'(3)] obtain h3 where
    h3: "hook_and_recolor h2 this G GG = Inr h3" "good D h3"
    "\<And>x. get_pParent h3 x = (if x = p' then Inr GG else get_pParent h2 x)"
    by blast
  have "nulls {P, G} h h3"
    unfolding nulls_def
  proof (intro allI impI)
    fix x assume x: "x \<notin> {P, G}" and n: "get_pParent h3 x = Inr None"
    from x p'(4) have "x \<noteq> p'" by auto
    with n h3(3) have "get_pParent h2 x = Inr None" by simp
    with par2 [of x] Gn have "get_pParent h1 x = Inr None" by (auto split: if_splits)
    with par1 [of x] x show "get_pParent h x = Inr None" by (auto split: if_splits)
  qed
  moreover have "get_pParent h3 this = Inr p'" using h3(3) p' by simp
  ultimately show ?thesis using h1(1) h2(1) h3(1) h3(2) p'(4) by auto
qed

lemma zigzag_body_ok:
  assumes addA_par: "\<And>h p q h' x. addA h p q = Inr h' \<Longrightarrow>
      get_pParent h' x = (if q \<noteq> None \<and> x = q then Inr p else get_pParent h x)"
    and addA_good: "\<And>h p q. good D h \<Longrightarrow> inD D p \<Longrightarrow> okD D q \<Longrightarrow>
      \<exists>h'. addA h p q = Inr h' \<and> good D h'"
    and addB_par: "\<And>h p q h' x. addB h p q = Inr h' \<Longrightarrow>
      get_pParent h' x = (if q \<noteq> None \<and> x = q then Inr p else get_pParent h x)"
    and addB_good: "\<And>h p q. good D h \<Longrightarrow> inD D p \<Longrightarrow> okD D q \<Longrightarrow>
      \<exists>h'. addB h p q = Inr h' \<and> good D h'"
    and getA_good: "\<And>h p. good D h \<Longrightarrow> inD D p \<Longrightarrow> \<exists>v. getA h p = Inr v \<and> okD D v"
    and getB_good: "\<And>h p. good D h \<Longrightarrow> inD D p \<Longrightarrow> \<exists>v. getB h p = Inr v \<and> okD D v"
    and g: "good D (h :: 'a heap)" and t: "inD D this" and G: "inD D G" and Gt: "G \<noteq> this"
    and GG: "okD D GG"
    and p: "get_pParent h this = Inr P" "inD D P" "P \<noteq> this"
  shows "\<exists>h'. rbind (getA h this) (\<lambda>r.
               rbind (addA h G r) (\<lambda>h1.
               rbind (get_pParent h1 this) (\<lambda>p1.
               rbind (getB h1 this) (\<lambda>l1.
               rbind (addB h1 p1 l1) (\<lambda>h2.
               rbind (addB h2 this G) (\<lambda>h3.
               rbind (get_pParent h3 this) (\<lambda>p3.
               rbind (addA h3 this p3) (\<lambda>h4.
               hook_and_recolor_zigzag h4 this G GG)))))))) = Inr h' \<and>
           good D h' \<and> nulls {this, P, G} h h' \<and>
           (get_pParent h' this = Inr P \<or> get_pParent h' this = Inr G \<or>
            get_pParent h' this = Inr None)"
proof -
  have Gn: "G \<noteq> None" using G by (rule inD_not_None)
  have tn: "this \<noteq> None" using t by (rule inD_not_None)
  from getA_good [OF g t] obtain r where r: "getA h this = Inr r" "okD D r" by blast
  from addA_good [OF g G r(2)] obtain h1 where h1: "addA h G r = Inr h1" "good D h1" by blast
  have par1: "\<And>x. get_pParent h1 x = (if r \<noteq> None \<and> x = r then Inr G else get_pParent h x)"
    using addA_par [OF h1(1)] by simp
  define p1 where "p1 = (if r = this then G else P)"
  have p1: "get_pParent h1 this = Inr p1" "inD D p1" "p1 \<noteq> this" "p1 = P \<or> p1 = G"
    using par1 [of this] p Gt G tn by (auto simp: p1_def)
  have p1n: "p1 \<noteq> None" using p1(2) by (rule inD_not_None)
  from getB_good [OF h1(2) t] obtain l1 where l1: "getB h1 this = Inr l1" "okD D l1" by blast
  from addB_good [OF h1(2) p1(2) l1(2)] obtain h2 where
    h2: "addB h1 p1 l1 = Inr h2" "good D h2" by blast
  have par2: "\<And>x. get_pParent h2 x = (if l1 \<noteq> None \<and> x = l1 then Inr p1 else get_pParent h1 x)"
    using addB_par [OF h2(1)] by simp
  from addB_good [OF h2(2) t inD_okD [OF G]] obtain h3 where
    h3: "addB h2 this G = Inr h3" "good D h3" by blast
  have par3: "\<And>x. get_pParent h3 x = (if x = G then Inr this else get_pParent h2 x)"
    using addB_par [OF h3(1)] Gn by simp
  have t3: "get_pParent h3 this = Inr p1"
    using par3 [of this] par2 [of this] p1(1) Gt by auto
  from addA_good [OF h3(2) t inD_okD [OF p1(2)]] obtain h4 where
    h4: "addA h3 this p1 = Inr h4" "good D h4" by blast
  have par4: "\<And>x. get_pParent h4 x = (if x = p1 then Inr this else get_pParent h3 x)"
    using addA_par [OF h4(1)] p1n by simp
  from hook_zigzag_ok [OF h4(2) t G GG] obtain h5 where
    h5: "hook_and_recolor_zigzag h4 this G GG = Inr h5" "good D h5"
    "\<And>x. get_pParent h5 x = (if x = this \<and> GG = None then Inr None else get_pParent h4 x)"
    by blast
  have "nulls {this, P, G} h h5"
    unfolding nulls_def
  proof (intro allI impI)
    fix x assume x: "x \<notin> {this, P, G}" and n: "get_pParent h5 x = Inr None"
    from x p1(4) have xp: "x \<noteq> p1" "x \<noteq> G" "x \<noteq> this" by auto
    with n h5(3) have "get_pParent h4 x = Inr None" by simp
    with par4 [of x] xp have "get_pParent h3 x = Inr None" by simp
    with par3 [of x] xp have "get_pParent h2 x = Inr None" by simp
    with par2 [of x] p1n have "get_pParent h1 x = Inr None" by (auto split: if_splits)
    with par1 [of x] Gn show "get_pParent h x = Inr None" by (auto split: if_splits)
  qed
  moreover have "get_pParent h5 this = Inr p1 \<or> get_pParent h5 this = Inr None"
    using h5(3) [of this] par4 [of this] t3 p1(3) by auto
  ultimately show ?thesis
    using r(1) h1(1) p1(1) l1(1) h2(1) h3(1) t3 h4(1) h5(1) h5(2) p1(4) by auto
qed

lemma chain_exact_unique: "chain_exact h n p \<Longrightarrow> chain_exact h m p \<Longrightarrow> n = m"
proof (induction n arbitrary: m p)
  case 0
  then show ?case by (cases m) auto
next
  case (Suc n)
  from Suc.prems(1) obtain a nd where a: "p = Some a" "cells h a = Some nd"
    "chain_exact h n (pParent nd)"
    by (auto split: option.splits)
  with Suc.prems(2) obtain m' where m': "m = Suc m'" "chain_exact h m' (pParent nd)"
    by (cases m) auto
  from Suc.IH [OF a(3) m'(2)] m'(1) show ?case by simp
qed

lemma parent_chain_exact: "parent_chain h n p \<Longrightarrow> \<exists>m\<le>n. chain_exact h m p"
proof (induction n arbitrary: p)
  case 0
  then have "chain_exact h 0 p" by simp
  then show ?case by blast
next
  case (Suc n)
  show ?case
  proof (cases p)
    case None
    then have "chain_exact h 0 p" by simp
    then show ?thesis by blast
  next
    case (Some a)
    with Suc.prems obtain nd where nd: "cells h a = Some nd" "parent_chain h n (pParent nd)"
      by (auto split: option.splits)
    from Suc.IH [OF nd(2)] obtain m where m: "m \<le> n" "chain_exact h m (pParent nd)" by blast
    then have "chain_exact h (Suc m) p" using Some nd by simp
    with m(1) show ?thesis by (intro exI [of _ "Suc m"]) simp
  qed
qed

lemma chain_exact_step:
  "chain_exact h n p \<Longrightarrow> get_pParent h p = Inr q \<Longrightarrow> \<exists>m. n = Suc m \<and> chain_exact h m q"
  by (cases n) (auto simp: get_pParent_def deref_eq_Inr rbind_eq_Inr)

lemma chain_exact_frame:
  "\<forall>x. get_pParent h' x = get_pParent h x \<Longrightarrow> chain_exact h' n p = chain_exact h n p"
proof (induction n arbitrary: p)
  case 0
  show ?case by simp
next
  case (Suc n)
  show ?case
  proof (cases p)
    case None
    then show ?thesis by simp
  next
    case (Some a)
    from Suc.prems have e: "get_pParent h' (Some a) = get_pParent h (Some a)" by blast
    show ?thesis
      using Some e Suc.IH [OF Suc.prems]
      by (cases "cells h a"; cases "cells h' a") (auto simp: get_pParent_def deref_def)
  qed
qed

lemma case4a_ok:
  assumes g: "good D h" and t: "inD D this" and G: "inD D G" and P: "inD D P"
    and Gt: "G \<noteq> this" and Pt: "P \<noteq> this" and GG: "okD D GG" and sib: "okD D sib"
    and inv: "get_pParent h this = Inr P \<or> get_pParent h this = Inr G \<or>
              get_pParent h this = Inr None"
  shows "\<exists>h'. case4a h this G GG sib = Inr h' \<and> good D h' \<and> nulls {this, P, G} h h' \<and>
           (get_pParent h' this = Inr P \<or> get_pParent h' this = Inr G \<or>
            get_pParent h' this = Inr None)"
proof -
  from shape_test_good [where mine = isLeftChild and moms = isLeftChild,
      OF g t G isChild_good(1) [OF g] isChild_good(1) [OF g]]
  obtain c where c: "shape_test isLeftChild isLeftChild h this G = Inr c"
    "c \<longrightarrow> (\<exists>pp. get_pParent h this = Inr pp \<and> pp \<noteq> None)" by blast
  show ?thesis
  proof (cases c)
    case False
    with c inv g show ?thesis by (simp add: case4a_def nulls_refl)
  next
    case True
    with c inv obtain pp where pp: "get_pParent h this = Inr pp" "pp = P \<or> pp = G" by auto
    with P G Pt Gt have ppD: "inD D pp" "pp \<noteq> this" by auto
    from straight_body_ok [of addRight D addLeft, OF add_par(2) add_good(2) add_par(1) add_good(1)
        g t G Gt GG sib pp(1) ppD]
    obtain h' where h': "rbind (addRight h pp G) (\<lambda>h1. rbind (addLeft h1 G sib) (\<lambda>h2.
                 hook_and_recolor h2 this G GG)) = Inr h'" "good D h'" "nulls {pp, G} h h'"
      "get_pParent h' this = Inr pp \<or> get_pParent h' this = Inr G"
      by blast
    have "nulls {this, P, G} h h'" using nulls_mono [OF h'(3)] pp(2) by auto
    then show ?thesis using c True pp h' by (auto simp: case4a_def)
  qed
qed

lemma case4b_ok:
  assumes g: "good D h" and t: "inD D this" and G: "inD D G" and P: "inD D P"
    and Gt: "G \<noteq> this" and Pt: "P \<noteq> this" and GG: "okD D GG" and sib: "okD D sib"
    and inv: "get_pParent h this = Inr P \<or> get_pParent h this = Inr G \<or>
              get_pParent h this = Inr None"
  shows "\<exists>h'. case4b h this G GG sib = Inr h' \<and> good D h' \<and> nulls {this, P, G} h h' \<and>
           (get_pParent h' this = Inr P \<or> get_pParent h' this = Inr G \<or>
            get_pParent h' this = Inr None)"
proof -
  from shape_test_good [where mine = isRightChild and moms = isRightChild,
      OF g t G isChild_good(2) [OF g] isChild_good(2) [OF g]]
  obtain c where c: "shape_test isRightChild isRightChild h this G = Inr c"
    "c \<longrightarrow> (\<exists>pp. get_pParent h this = Inr pp \<and> pp \<noteq> None)" by blast
  show ?thesis
  proof (cases c)
    case False
    with c inv g show ?thesis by (simp add: case4b_def nulls_refl)
  next
    case True
    with c inv obtain pp where pp: "get_pParent h this = Inr pp" "pp = P \<or> pp = G" by auto
    with P G Pt Gt have ppD: "inD D pp" "pp \<noteq> this" by auto
    from straight_body_ok [of addLeft D addRight, OF add_par(1) add_good(1) add_par(2) add_good(2)
        g t G Gt GG sib pp(1) ppD]
    obtain h' where h': "rbind (addLeft h pp G) (\<lambda>h1. rbind (addRight h1 G sib) (\<lambda>h2.
                 hook_and_recolor h2 this G GG)) = Inr h'" "good D h'" "nulls {pp, G} h h'"
      "get_pParent h' this = Inr pp \<or> get_pParent h' this = Inr G"
      by blast
    have "nulls {this, P, G} h h'" using nulls_mono [OF h'(3)] pp(2) by auto
    then show ?thesis using c True pp h' by (auto simp: case4b_def)
  qed
qed

lemma case4c_ok:
  assumes g: "good D h" and t: "inD D this" and G: "inD D G" and P: "inD D P"
    and Gt: "G \<noteq> this" and Pt: "P \<noteq> this" and GG: "okD D GG"
    and inv: "get_pParent h this = Inr P \<or> get_pParent h this = Inr G \<or>
              get_pParent h this = Inr None"
  shows "\<exists>h'. case4c h this G GG = Inr h' \<and> good D h' \<and> nulls {this, P, G} h h' \<and>
           (get_pParent h' this = Inr P \<or> get_pParent h' this = Inr G \<or>
            get_pParent h' this = Inr None)"
proof -
  from shape_test_good [where mine = isRightChild and moms = isLeftChild,
      OF g t G isChild_good(2) [OF g] isChild_good(1) [OF g]]
  obtain c where c: "shape_test isRightChild isLeftChild h this G = Inr c"
    "c \<longrightarrow> (\<exists>pp. get_pParent h this = Inr pp \<and> pp \<noteq> None)" by blast
  show ?thesis
  proof (cases c)
    case False
    with c inv g show ?thesis by (simp add: case4c_def nulls_refl)
  next
    case True
    with c inv obtain pp where pp: "get_pParent h this = Inr pp" "pp = P \<or> pp = G" by auto
    with P G Pt Gt have ppD: "inD D pp" "pp \<noteq> this" by auto
    from zigzag_body_ok [of addLeft D addRight get_pRight get_pLeft,
        OF add_par(1) add_good(1) add_par(2) add_good(2) get_good(2) get_good(1)
        g t G Gt GG pp(1) ppD]
    obtain h' where h': "rbind (get_pRight h this) (\<lambda>r.
               rbind (addLeft h G r) (\<lambda>h1.
               rbind (get_pParent h1 this) (\<lambda>p1.
               rbind (get_pLeft h1 this) (\<lambda>l1.
               rbind (addRight h1 p1 l1) (\<lambda>h2.
               rbind (addRight h2 this G) (\<lambda>h3.
               rbind (get_pParent h3 this) (\<lambda>p3.
               rbind (addLeft h3 this p3) (\<lambda>h4.
               hook_and_recolor_zigzag h4 this G GG)))))))) = Inr h'"
      "good D h'" "nulls {this, pp, G} h h'"
      "get_pParent h' this = Inr pp \<or> get_pParent h' this = Inr G \<or>
       get_pParent h' this = Inr None"
      by blast
    have "nulls {this, P, G} h h'" using nulls_mono [OF h'(3)] pp(2) by auto
    then show ?thesis using c True pp h' by (auto simp: case4c_def)
  qed
qed

lemma case4d_ok:
  assumes g: "good D h" and t: "inD D this" and G: "inD D G" and P: "inD D P"
    and Gt: "G \<noteq> this" and Pt: "P \<noteq> this" and GG: "okD D GG"
    and inv: "get_pParent h this = Inr P \<or> get_pParent h this = Inr G \<or>
              get_pParent h this = Inr None"
  shows "\<exists>h'. case4d h this G GG = Inr h' \<and> good D h' \<and> nulls {this, P, G} h h' \<and>
           (get_pParent h' this = Inr P \<or> get_pParent h' this = Inr G \<or>
            get_pParent h' this = Inr None)"
proof -
  from shape_test_good [where mine = isLeftChild and moms = isRightChild,
      OF g t G isChild_good(1) [OF g] isChild_good(2) [OF g]]
  obtain c where c: "shape_test isLeftChild isRightChild h this G = Inr c"
    "c \<longrightarrow> (\<exists>pp. get_pParent h this = Inr pp \<and> pp \<noteq> None)" by blast
  show ?thesis
  proof (cases c)
    case False
    with c inv g show ?thesis by (simp add: case4d_def nulls_refl)
  next
    case True
    with c inv obtain pp where pp: "get_pParent h this = Inr pp" "pp = P \<or> pp = G" by auto
    with P G Pt Gt have ppD: "inD D pp" "pp \<noteq> this" by auto
    from zigzag_body_ok [of addRight D addLeft get_pLeft get_pRight,
        OF add_par(2) add_good(2) add_par(1) add_good(1) get_good(1) get_good(2)
        g t G Gt GG pp(1) ppD]
    obtain h' where h': "rbind (get_pLeft h this) (\<lambda>r.
               rbind (addRight h G r) (\<lambda>h1.
               rbind (get_pParent h1 this) (\<lambda>p1.
               rbind (get_pRight h1 this) (\<lambda>l1.
               rbind (addLeft h1 p1 l1) (\<lambda>h2.
               rbind (addLeft h2 this G) (\<lambda>h3.
               rbind (get_pParent h3 this) (\<lambda>p3.
               rbind (addRight h3 this p3) (\<lambda>h4.
               hook_and_recolor_zigzag h4 this G GG)))))))) = Inr h'"
      "good D h'" "nulls {this, pp, G} h h'"
      "get_pParent h' this = Inr pp \<or> get_pParent h' this = Inr G \<or>
       get_pParent h' this = Inr None"
      by blast
    have "nulls {this, P, G} h h'" using nulls_mono [OF h'(3)] pp(2) by auto
    then show ?thesis using c True pp h' by (auto simp: case4d_def)
  qed
qed

lemma rotate_ok:
  assumes g: "good D h" and t: "inD D this" and G: "inD D G" and P: "inD D P"
    and Gt: "G \<noteq> this" and Pt: "P \<noteq> this" and GG: "okD D GG" and sib: "okD D sib"
    and inv: "get_pParent h this = Inr P"
  shows "\<exists>h'. rotate h this G GG sib = Inr h' \<and> good D h' \<and> nulls {this, P, G} h h'"
proof -
  from case4a_ok [OF g t G P Gt Pt GG sib] inv obtain h1 where
    h1: "case4a h this G GG sib = Inr h1" "good D h1" "nulls {this, P, G} h h1"
    "get_pParent h1 this = Inr P \<or> get_pParent h1 this = Inr G \<or> get_pParent h1 this = Inr None"
    by blast
  from case4b_ok [OF h1(2) t G P Gt Pt GG sib h1(4)] obtain h2 where
    h2: "case4b h1 this G GG sib = Inr h2" "good D h2" "nulls {this, P, G} h1 h2"
    "get_pParent h2 this = Inr P \<or> get_pParent h2 this = Inr G \<or> get_pParent h2 this = Inr None"
    by blast
  from case4c_ok [OF h2(2) t G P Gt Pt GG h2(4)] obtain h3 where
    h3: "case4c h2 this G GG = Inr h3" "good D h3" "nulls {this, P, G} h2 h3"
    "get_pParent h3 this = Inr P \<or> get_pParent h3 this = Inr G \<or> get_pParent h3 this = Inr None"
    by blast
  from case4d_ok [OF h3(2) t G P Gt Pt GG h3(4)] obtain h4 where
    h4: "case4d h3 this G GG = Inr h4" "good D h4" "nulls {this, P, G} h3 h4"
    by blast
  have "nulls {this, P, G} h h4"
    using nulls_trans [OF nulls_trans [OF nulls_trans [OF h1(3) h2(3)] h3(3)] h4(3)] .
  then show ?thesis using h1(1) h2(1) h3(1) h4(1) h4(2) by (simp add: rotate_def)
qed

lemma balance_ok:
  "good D h \<Longrightarrow> inD D this \<Longrightarrow> chain_exact h n this \<Longrightarrow> n < fuel \<Longrightarrow> roots_black h this \<Longrightarrow>
   \<exists>h'. balance fuel h this = Inr h' \<and> good D h' \<and>
        nulls {x. \<exists>m\<le>n. chain_exact h m x} h h'"
proof (induction fuel arbitrary: h n this)
  case 0
  then show ?case by simp
next
  case (Suc k)
  note g = Suc.prems(1) and t = Suc.prems(2) and ch = Suc.prems(3) and rb = Suc.prems(5)
  let ?S = "{x. \<exists>m\<le>n. chain_exact h m x}"
  from get_good(3) [OF g t] obtain pp where pp: "get_pParent h this = Inr pp" "okD D pp" by blast
  show ?case
  proof (cases "pp = None")
    case True
    from set_good(4) [OF g t] obtain h' where h': "set_isRed h this False = Inr h'" "good D h'"
      by blast
    have "nulls ?S h h'" using set_other_par(3) [OF h'(1)] by (rule nulls_same)
    then show ?thesis using pp True h' by simp
  next
    case ppn: False
    with pp have ppD: "inD D pp" by (simp add: okD_inD)
    from get_good(4) [OF g ppD] obtain pr where pr: "get_isRed h pp = Inr pr" by blast
    show ?thesis
    proof (cases pr)
      case False
      then show ?thesis using pp ppn pr g by (auto simp: nulls_refl)
    next
      case red: True
      from chain_exact_step [OF ch pp(1)] obtain m1 where m1: "n = Suc m1" "chain_exact h m1 pp"
        by blast
      have ppt: "pp \<noteq> this" using chain_exact_unique [OF ch, of m1] m1 by auto
      from get_good(3) [OF g ppD] obtain G where G: "get_pParent h pp = Inr G" "okD D G" by blast
      have Gn: "G \<noteq> None"
      proof
        assume "G = None"
        with G(1) pr red ppt obtain b nd where "pp = Some b" "cells h b = Some nd"
          "pParent nd = None" "isRed nd"
          by (auto simp: get_pParent_def get_isRed_def deref_eq_Inr rbind_eq_Inr)
        with rb ppt show False unfolding roots_black_def by blast
      qed
      with G have GD: "inD D G" by (simp add: okD_inD)
      from chain_exact_step [OF m1(2) G(1)] obtain m2 where m2: "m1 = Suc m2" "chain_exact h m2 G"
        by blast
      have Gt: "G \<noteq> this" using chain_exact_unique [OF ch, of m2] m1 m2 by auto
      from get_good(3) [OF g GD] obtain GG where GG: "get_pParent h G = Inr GG" "okD D GG" by blast
      from get_good(1) [OF g GD] obtain gl where gl: "get_pLeft h G = Inr gl" "okD D gl" by blast
      from get_good(2) [OF g GD] obtain gr where gr: "get_pRight h G = Inr gr" "okD D gr" by blast
      define aunt where "aunt = (if pp = gl then gr else gl)"
      have aunt: "(if pp = gl then get_pRight h G else get_pLeft h G) = Inr aunt" "okD D aunt"
        using gl gr by (auto simp: aunt_def)
      from isChild_good(1) [OF g t] obtain il where il: "isLeftChild h this = Inr il" by blast
      from get_good(1) [OF g ppD] obtain pl where pl: "get_pLeft h pp = Inr pl" "okD D pl" by blast
      from get_good(2) [OF g ppD] obtain prt where prt: "get_pRight h pp = Inr prt" "okD D prt"
        by blast
      define sib where "sib = (if il then prt else pl)"
      have sib: "(if il then get_pRight h pp else get_pLeft h pp) = Inr sib" "okD D sib"
        using pl prt by (auto simp: sib_def)
      have "\<exists>ar. (if aunt \<noteq> None then get_isRed h aunt else Inr False) = Inr ar \<and>
              (ar \<longrightarrow> inD D aunt)"
        using get_good(4) [OF g okD_inD [OF aunt(2)]] aunt(2)
        by (cases "aunt = None") (auto simp: okD_inD)
      then obtain ar where ar: "(if aunt \<noteq> None then get_isRed h aunt else Inr False) = Inr ar"
        "ar \<longrightarrow> inD D aunt" by blast
      have unfold: "balance (Suc k) h this =
          (if ar then
             rbind (set_isRed h G True) (\<lambda>h1.
             rbind (balance k h1 G) (\<lambda>h2.
             rbind (get_pParent h2 this) (\<lambda>p2.
             rbind (set_isRed h2 p2 False) (\<lambda>h3.
             set_isRed h3 aunt False))))
           else
             rbind (if aunt \<noteq> None then rbind (get_isRed h aunt) (\<lambda>r. Inr (\<not> r))
                    else Inr True) (\<lambda>auntBlackOrAbsent.
             if auntBlackOrAbsent then rotate h this G GG sib
             else Inr h))"
        using pp(1) ppn pr red G(1) GG(1) gl(1) aunt(1) il sib(1) ar(1)
        by (simp del: not_None_eq)
      have inS: "this \<in> ?S" "pp \<in> ?S" "G \<in> ?S"
        using ch m1 m2 by (auto intro: exI [of _ n] exI [of _ m1] exI [of _ m2])
      show ?thesis
      proof (cases ar)
        case True
        with ar have auntD: "inD D aunt" by simp
        from set_good(4) [OF g GD] obtain h1 where h1: "set_isRed h G True = Inr h1" "good D h1"
          by blast
        have par1: "\<forall>x. get_pParent h1 x = get_pParent h x"
          using set_other_par(3) [OF h1(1)] by simp
        have ch1: "chain_exact h1 m2 G" using chain_exact_frame [OF par1] m2 by simp
        have m2k: "m2 < k" using m1 m2 Suc.prems(4) by simp
        have rb1: "roots_black h1 G"
          unfolding roots_black_def
        proof (intro allI impI)
          fix x nd assume a: "cells h1 x = Some nd \<and> pParent nd = None \<and> Some x \<noteq> G"
          from h1(1) a have c: "cells h x = Some nd"
            by (auto simp: set_isRed_def store_def split: option.splits if_splits)
          have "Some x \<noteq> this"
          proof
            assume "Some x = this"
            with c pp(1) ppn a show False
              by (auto simp: get_pParent_def deref_def split: option.splits)
          qed
          with rb c a show "\<not> isRed nd" unfolding roots_black_def by blast
        qed
        from Suc.IH [OF h1(2) GD ch1 m2k rb1] obtain h2 where
          h2: "balance k h1 G = Inr h2" "good D h2"
          "nulls {x. \<exists>m\<le>m2. chain_exact h1 m x} h1 h2" by blast
        have sub: "\<And>x. x \<notin> ?S \<Longrightarrow> x \<notin> {x. \<exists>m\<le>m2. chain_exact h1 m x}"
          using chain_exact_frame [OF par1] m1 m2 by auto
        have "this \<notin> {x. \<exists>m\<le>m2. chain_exact h1 m x}"
        proof
          assume "this \<in> {x. \<exists>m\<le>m2. chain_exact h1 m x}"
          then obtain m where m: "m \<le> m2" "chain_exact h m this"
            using chain_exact_frame [OF par1] by auto
          from chain_exact_unique [OF ch m(2)] m(1) m1 m2 show False by simp
        qed
        with h2(3) pp(1) ppn par1 have "get_pParent h2 this \<noteq> Inr None"
          unfolding nulls_def by auto
        with get_good(3) [OF h2(2) t] obtain p2 where p2: "get_pParent h2 this = Inr p2" "inD D p2"
          by (auto simp: okD_inD)
        from set_good(4) [OF h2(2) p2(2)] obtain h3 where
          h3: "set_isRed h2 p2 False = Inr h3" "good D h3" by blast
        from set_good(4) [OF h3(2) auntD] obtain h4 where
          h4: "set_isRed h3 aunt False = Inr h4" "good D h4" by blast
        have "nulls ?S h h4"
          unfolding nulls_def
        proof (intro allI impI)
          fix x assume x: "x \<notin> ?S" and n: "get_pParent h4 x = Inr None"
          from n set_other_par(3) [OF h4(1)] set_other_par(3) [OF h3(1)]
          have "get_pParent h2 x = Inr None" by simp
          with h2(3) sub [OF x] have "get_pParent h1 x = Inr None" unfolding nulls_def by blast
          with par1 show "get_pParent h x = Inr None" by simp
        qed
        then show ?thesis using unfold True h1(1) h2(1) p2(1) h3(1) h4 by simp
      next
        case False
        have "\<exists>c4. (if aunt \<noteq> None then rbind (get_isRed h aunt) (\<lambda>r. Inr (\<not> r))
                    else Inr True) = Inr c4"
          using ar(1) by (cases "aunt = None") auto
        then obtain c4 where c4: "(if aunt \<noteq> None then rbind (get_isRed h aunt) (\<lambda>r. Inr (\<not> r))
                    else Inr True) = Inr c4" by blast
        show ?thesis
        proof (cases c4)
          case False
          then show ?thesis using unfold \<open>\<not> ar\<close> c4 g by (simp add: nulls_refl)
        next
          case True
          from rotate_ok [OF g t GD ppD Gt ppt GG(2) sib(2) pp(1)] obtain h' where
            h': "rotate h this G GG sib = Inr h'" "good D h'" "nulls {this, pp, G} h h'" by blast
          have "nulls ?S h h'" using nulls_mono [OF h'(3)] inS by auto
          then show ?thesis using unfold \<open>\<not> ar\<close> c4 True h' by simp
        qed
      qed
    qed
  qed
qed

text \<open>
  Where the parent pointers from the node reach \<^verbatim>\<open>nullptr\<close> within \<open>n\<close> steps,
  \<open>n + 1\<close> units of fuel (one per call) are enough for \<^verbatim>\<open>balance\<close>: the fuel does
  not run out, and any larger amount of fuel gives the same outcome. Only case 3 calls
  \<^verbatim>\<open>balance\<close> again, on the grandparent, two steps up the chain; cases 1, 2 and 4
  make no call. When moreover no pointer in the heap dangles and every root other than the
  node itself is black, the call returns a heap (it dereferences neither
  \<^verbatim>\<open>nullptr\<close> nor a deleted node), and no pointer dangles in that heap. The
  hypothesis on the parent pointers is not an invariant of the tree: the next section has
  a state built by \<^verbatim>\<open>insert\<close> alone in which it fails.
\<close>

lemma balance_returns_on_parent_chain:
  "parent_chain h n this \<Longrightarrow> n < fuel \<Longrightarrow>
   finishes (balance fuel h this) \<and> balance fuel h this = balance (Suc n) h this \<and>
   (good D h \<and> inD D this \<and> roots_black h this \<longrightarrow>
      (\<exists>h'. balance fuel h this = Inr h' \<and> good D h'))"
proof (intro conjI impI)
  assume c: "parent_chain h n this" and l: "n < fuel"
  show "finishes (balance fuel h this)" using c l by (rule balance_finishes)
  show "balance fuel h this = balance (Suc n) h this"
    using balance_fuel_irrelevant [OF c l, of "Suc n"] by simp
  assume w: "good D h \<and> inD D this \<and> roots_black h this"
  from parent_chain_exact [OF c] obtain m where m: "m \<le> n" "chain_exact h m this" by blast
  with l have "m < fuel" by simp
  from balance_ok [OF _ _ m(2) this, of D] w
  show "\<exists>h'. balance fuel h this = Inr h' \<and> good D h'" by blast
qed

text \<open>An instance: the new node 5 at depth 3 below 10 and 20, with the red aunt 30.\<close>

lemma balance_returns_on_four_heap:
  "parent_chain four_heap 3 (Some 3) \<and> (3::nat) < 4 \<and>
   good {0, 1, 2, 3} four_heap \<and> inD {0, 1, 2, 3} (Some 3) \<and>
   roots_black four_heap (Some 3) \<and>
   finishes (balance 4 four_heap (Some 3)) \<and>
   balance 4 four_heap (Some 3) = balance (Suc 3) four_heap (Some 3) \<and>
   (\<exists>h'. balance 4 four_heap (Some 3) = Inr h' \<and> good {0, 1, 2, 3} h')"
proof -
  have c: "parent_chain four_heap 3 (Some 3)"
    by (simp add: four_heap_def eval_nat_numeral)
  have l: "(3::nat) < 4" by simp
  have g: "good {0, 1, 2, 3} four_heap"
    by (auto simp: good_def four_heap_def okD_def split: if_splits)
  have i: "inD {0, 1, 2, 3} (Some 3)" by (simp add: inD_def)
  have r: "roots_black four_heap (Some 3)"
    by (auto simp: roots_black_def four_heap_def split: if_splits)
  from balance_returns_on_parent_chain [OF c l, of "{0, 1, 2, 3}"] c l g i r show ?thesis by simp
qed

section \<open>Termination of balance (C8)\<close>

text \<open>
  When the parent pointers of a node \<open>q\<close> and of its parent \<open>p\<close> point at each other,
  \<open>p\<close> is red and the other child of \<open>q\<close> is red, \<^verbatim>\<open>balance\<close> on \<open>q\<close> takes
  case 3 with \<open>q\<close> as its own grandparent: it colours \<open>q\<close> red and calls itself on
  \<open>q\<close> again, in the same situation. No amount of fuel is enough.
\<close>

lemma balance_on_parent_cycle:
  "cells g q = Some nq \<Longrightarrow> pParent nq = Some p \<Longrightarrow> cells g p = Some np \<Longrightarrow>
   pParent np = Some q \<Longrightarrow> isRed np \<Longrightarrow> p \<noteq> q \<Longrightarrow>
   (if pLeft nq = Some p then pRight nq else pLeft nq) = Some u \<Longrightarrow> u \<noteq> q \<Longrightarrow>
   cells g u = Some nu \<Longrightarrow> isRed nu \<Longrightarrow>
   balance k g (Some q) = Inl OutOfFuel"
proof (induction k arbitrary: g nq)
  case 0
  show ?case by simp
next
  case (Suc k)
  let ?g1 = "g\<lparr>cells := (cells g)(q \<mapsto> nq\<lparr>isRed := True\<rparr>)\<rparr>"
  have rec: "balance k ?g1 (Some q) = Inl OutOfFuel"
    by (rule Suc.IH [where nq = "nq\<lparr>isRed := True\<rparr>"])
       (use Suc.prems in \<open>simp_all split: if_splits\<close>)
  have sets: "set_isRed g (Some q) True = Inr ?g1"
    using Suc.prems(1) by (simp add: set_isRed_def store_def)
  note defs = get_pParent_def get_isRed_def get_pLeft_def get_pRight_def isLeftChild_def deref_def
  show ?case
  proof (cases "pLeft nq = Some p")
    case True
    with Suc.prems(7) have "pRight nq = Some u" by simp
    with True Suc.prems rec sets show ?thesis by (simp add: defs)
  next
    case False
    with Suc.prems(7) have l: "pLeft nq = Some u" by simp
    with False have "u \<noteq> p" by auto
    with l Suc.prems rec sets show ?thesis by (simp add: defs)
  qed
qed

lemma no_parent_chain_on_cycle:
  "cells h p = Some np \<Longrightarrow> pParent np = Some q \<Longrightarrow> cells h q = Some nq \<Longrightarrow>
   pParent nq = Some p \<Longrightarrow> \<not> parent_chain h n (Some p) \<and> \<not> parent_chain h n (Some q)"
  by (induction n) auto

text \<open>The state after the inserts 20, 10, 30, 5, 7: case 4c has left the parent pointers
  of 5 (address 3) and 7 (address 4) pointing at each other. 7 has 5 and the red node 10
  (address 1) as its children, and 20 has 10 and 5 as its children.\<close>

lemma five_inserts:
  "rbind after_five_inserts
     (\<lambda>(h, b). Inr (root b, nxt h, cells h 0, cells h 1, cells h 3, cells h 4)) =
   Inr (Some 0, 5,
      Some \<lparr>data = 20, pLeft = Some 1, pRight = Some 3, pParent = None, isRed = False\<rparr>,
      Some \<lparr>data = 10, pLeft = None, pRight = None, pParent = Some 4, isRed = True\<rparr>,
      Some \<lparr>data = 5, pLeft = None, pRight = None, pParent = Some 4, isRed = True\<rparr>,
      Some \<lparr>data = 7, pLeft = Some 3, pRight = Some 1, pParent = Some 3, isRed = False\<rparr>)"
  by code_simp

lemma five_inserts_state:
  obtains h b where
    "after_five_inserts = Inr (h, b)"
    "root b = Some 0" "nxt h = 5"
    "cells h 0 = Some \<lparr>data = 20, pLeft = Some 1, pRight = Some 3, pParent = None, isRed = False\<rparr>"
    "cells h 1 = Some \<lparr>data = 10, pLeft = None, pRight = None, pParent = Some 4, isRed = True\<rparr>"
    "cells h 3 = Some \<lparr>data = 5, pLeft = None, pRight = None, pParent = Some 4, isRed = True\<rparr>"
    "cells h 4 = Some \<lparr>data = 7, pLeft = Some 3, pRight = Some 1, pParent = Some 3, isRed = False\<rparr>"
proof -
  from five_inserts [unfolded rbind_eq_Inr] obtain x where "after_five_inserts = Inr x"
    by blast
  then obtain h b where r: "after_five_inserts = Inr (h, b)"
    by (cases x) simp
  from five_inserts [unfolded r] have "root b = Some 0" "nxt h = 5"
    "cells h 0 = Some \<lparr>data = 20, pLeft = Some 1, pRight = Some 3, pParent = None, isRed = False\<rparr>"
    "cells h 1 = Some \<lparr>data = 10, pLeft = None, pRight = None, pParent = Some 4, isRed = True\<rparr>"
    "cells h 3 = Some \<lparr>data = 5, pLeft = None, pRight = None, pParent = Some 4, isRed = True\<rparr>"
    "cells h 4 = Some \<lparr>data = 7, pLeft = Some 3, pRight = Some 1, pParent = Some 3, isRed = False\<rparr>"
    by simp_all
  with r show ?thesis by (rule that)
qed

lemma five_inserts_no_parent_chain:
  "rbind after_five_inserts (\<lambda>(h, b). Inr (parent_chain h n (Some 3))) = Inr False"
proof -
  obtain h b where s: "after_five_inserts = Inr (h, b)"
    "cells h 3 = Some \<lparr>data = 5, pLeft = None, pRight = None, pParent = Some 4, isRed = True\<rparr>"
    "cells h 4 = Some \<lparr>data = 7, pLeft = Some 3, pRight = Some 1, pParent = Some 3, isRed = False\<rparr>"
    by (rule five_inserts_state)
  from no_parent_chain_on_cycle [OF s(2) _ s(3), of n] show ?thesis by (simp add: s(1))
qed

text \<open>In that state \<^verbatim>\<open>insert(25)\<close> descends from 20 to its right child 5, links the
  new node (address 5) as the right child of 5 and calls \<^verbatim>\<open>balance\<close> on it: parent
  5 is red, grandparent 7, aunt 10 is red, so case 3 colours 7 red and calls
  \<^verbatim>\<open>balance\<close> on 7, whose parent is 5 and whose grandparent is 7 itself.\<close>

lemma sixth_insert_runs_out:
  assumes "root b = Some 0" "nxt h = 5"
    "cells h 0 = Some \<lparr>data = 20::int, pLeft = Some 1, pRight = Some 3, pParent = None, isRed = False\<rparr>"
    "cells h 1 = Some \<lparr>data = 10, pLeft = None, pRight = None, pParent = Some 4, isRed = True\<rparr>"
    "cells h 3 = Some \<lparr>data = 5, pLeft = None, pRight = None, pParent = Some 4, isRed = True\<rparr>"
    "cells h 4 = Some \<lparr>data = 7, pLeft = Some 3, pRight = Some 1, pParent = Some 3, isRed = False\<rparr>"
  shows "\<exists>h1. addRight_value h (Some 3) 25 = Inr h1 \<and> balance fuel h1 (Some 5) = Inl OutOfFuel"
    and "BST_insert fuel val_cmp h b 25 True = Inl OutOfFuel"
proof -
  let ?n5 = "\<lparr>data = 25::int, pLeft = None, pRight = None, pParent = Some 3, isRed = True\<rparr>"
  let ?n3 = "\<lparr>data = 5::int, pLeft = None, pRight = Some 5, pParent = Some 4, isRed = True\<rparr>"
  let ?h1 = "h\<lparr>cells := (cells h)(5 \<mapsto> ?n5, 3 \<mapsto> ?n3), nxt := 6\<rparr>"
  have add: "addRight_value h (Some 3) 25 = Inr ?h1"
    using assms
    by (simp add: addRight_value_def new_BNode_def set_pParent_def set_pRight_def store_def)
  have cyc: "balance k g (Some 4) = Inl OutOfFuel"
    if "cells g 4 = Some n4" "pParent n4 = Some 3" "pLeft n4 = Some 3" "pRight n4 = Some 1"
       "cells g 3 = Some ?n3" "cells g 1 = cells h 1" for k g n4
  proof (rule balance_on_parent_cycle)
    show "cells g 4 = Some n4" "pParent n4 = Some 3" "cells g 3 = Some ?n3" by (fact that)+
    show "pParent ?n3 = Some 4" "isRed ?n3" "(3::nat) \<noteq> 4" "(1::nat) \<noteq> 4" by simp_all
    show "(if pLeft n4 = Some 3 then pRight n4 else pLeft n4) = Some 1" using that by simp
    show "cells g 1 = Some \<lparr>data = 10, pLeft = None, pRight = None, pParent = Some 4, isRed = True\<rparr>"
      using that(6) assms(4) by simp
    show "isRed \<lparr>data = 10::int, pLeft = None, pRight = None, pParent = Some 4, isRed = True\<rparr>"
      by simp
  qed
  have bal: "balance k ?h1 (Some 5) = Inl OutOfFuel" for k
  proof (cases k)
    case 0
    then show ?thesis by simp
  next
    case (Suc j)
    have "balance j (?h1\<lparr>cells := (cells ?h1)(4 \<mapsto>
            \<lparr>data = 7, pLeft = Some 3, pRight = Some 1, pParent = Some 3, isRed = True\<rparr>)\<rparr>)
            (Some 4) = Inl OutOfFuel"
      by (rule cyc, simp) simp_all
    then show ?thesis
      using assms Suc
      by (simp add: get_pParent_def get_isRed_def get_pLeft_def get_pRight_def
          isLeftChild_def set_isRed_def store_def deref_def del: not_None_eq)
  qed
  from add bal show "\<exists>h1. addRight_value h (Some 3) 25 = Inr h1 \<and> balance fuel h1 (Some 5) = Inl OutOfFuel"
    by simp
  show "BST_insert fuel val_cmp h b 25 True = Inl OutOfFuel"
  proof (cases fuel)
    case 0
    then show ?thesis using assms by (simp add: BST_insert_def)
  next
    case f1: (Suc k1)
    show ?thesis
    proof (cases k1)
      case 0
      then show ?thesis using assms f1
        by (simp add: BST_insert_def get_data_def get_pRight_def deref_def val_cmp_def
            child_slot_def del: not_None_eq)
    next
      case f2: (Suc k2)
      show ?thesis using assms f1 f2 add bal [of k2]
        by (simp add: BST_insert_def get_data_def get_pRight_def deref_def val_cmp_def
            child_slot_def del: not_None_eq)
    qed
  qed
qed

text \<open>
  C8. \<^verbatim>\<open>balance\<close> does not terminate for every node of every finite tree. After
  the inserts 20, 10, 30, 5, 7 the child pointers from \<^verbatim>\<open>root\<close> unfold to the finite
  tree with 20 at the top, 10 on its left and 5 on its right, while the parent pointers of
  5 and 7 point at each other (first three conjuncts). The next insert links 25 as the
  right child of 5 and calls \<^verbatim>\<open>balance\<close> on it: the red-aunt case recurses on the
  grandparent 7, whose grandparent is 7 again, and the recursion never ends: with every
  amount of fuel the call of \<^verbatim>\<open>balance\<close> on the new node runs out of fuel (fourth
  conjunct), and so does \<^verbatim>\<open>insert(25)\<close> as a whole (fifth conjunct). The recursion
  on the grandparent does not move closer to the root there. On a second input
  \<^verbatim>\<open>balance\<close> does not return either: after the inserts 20, 10, 30 and
  \<^verbatim>\<open>erase(find(20))\<close> the root 30 is red, and \<^verbatim>\<open>insert(40)\<close> makes
  \<^verbatim>\<open>balance\<close> read \<^verbatim>\<open>pGrandparent->pParent\<close> with
  \<^verbatim>\<open>pGrandparent == nullptr\<close> (last conjunct).
\<close>

theorem balance_recursion_never_ends:
  "unfolds_to after_five_inserts (Br (Br Tip 1 10 Tip) 0 20 (Br Tip 3 5 Tip)) \<and>
   links after_five_inserts 3 = Inr (5, None, None, Some 4) \<and>
   links after_five_inserts 4 = Inr (7, Some 3, Some 1, Some 3) \<and>
   outcome (rbind after_five_inserts (\<lambda>(h, b).
      rbind (addRight_value h (Some 3) 25) (\<lambda>h1.
      rbind (balance fuel h1 (Some 5)) (\<lambda>h2. Inr (h2, b))))) = Inl OutOfFuel \<and>
   outcome (rbind after_five_inserts (\<lambda>(h, b). BST_insert fuel val_cmp h b 25 True)) =
     Inl OutOfFuel \<and>
   outcome (rbind (insert_seq 10 val_cmp True [20, 10, 30::int] empty_heap BST_ctor) (\<lambda>(h, b).
      rbind (erase_found 10 val_cmp h b 20) (\<lambda>(h1, b1, it).
      BST_insert 10 val_cmp h1 b1 40 True))) = Inl NullDeref"
proof (intro conjI)
  show "unfolds_to after_five_inserts (Br (Br Tip 1 10 Tip) 0 20 (Br Tip 3 5 Tip))"
    by code_simp
  show "links after_five_inserts 3 = Inr (5, None, None, Some 4)"
    by code_simp
  show "links after_five_inserts 4 = Inr (7, Some 3, Some 1, Some 3)"
    by code_simp
  show "outcome (rbind (insert_seq 10 val_cmp True [20, 10, 30::int] empty_heap BST_ctor) (\<lambda>(h, b).
      rbind (erase_found 10 val_cmp h b 20) (\<lambda>(h1, b1, it).
      BST_insert 10 val_cmp h1 b1 40 True))) = Inl NullDeref"
    by code_simp
  obtain h b where s: "after_five_inserts = Inr (h, b)"
    "root b = Some 0" "nxt h = 5"
    "cells h 0 = Some \<lparr>data = 20, pLeft = Some 1, pRight = Some 3, pParent = None, isRed = False\<rparr>"
    "cells h 1 = Some \<lparr>data = 10, pLeft = None, pRight = None, pParent = Some 4, isRed = True\<rparr>"
    "cells h 3 = Some \<lparr>data = 5, pLeft = None, pRight = None, pParent = Some 4, isRed = True\<rparr>"
    "cells h 4 = Some \<lparr>data = 7, pLeft = Some 3, pRight = Some 1, pParent = Some 3, isRed = False\<rparr>"
    by (rule five_inserts_state)
  from sixth_insert_runs_out(1) [OF s(2-7), of fuel] obtain h1 where
    "addRight_value h (Some 3) 25 = Inr h1" "balance fuel h1 (Some 5) = Inl OutOfFuel" by blast
  then show "outcome (rbind after_five_inserts (\<lambda>(h, b).
      rbind (addRight_value h (Some 3) 25) (\<lambda>h1.
      rbind (balance fuel h1 (Some 5)) (\<lambda>h2. Inr (h2, b))))) = Inl OutOfFuel"
    by (simp add: s(1) outcome_def)
  from sixth_insert_runs_out(2) [OF s(2-7), of fuel]
  show "outcome (rbind after_five_inserts (\<lambda>(h, b). BST_insert fuel val_cmp h b 25 True)) =
     Inl OutOfFuel"
    by (simp add: s(1) outcome_def)
qed

section \<open>The iterator that insert returns (C9)\<close>

lemma priv_insert_iterator:
  "priv_insert fuel c h b s t ku = Inr (h', b', it, True) \<Longrightarrow> slot_get h b s = Inr p \<Longrightarrow>
   p \<noteq> None \<Longrightarrow>
   b' = b \<and> (\<exists>q left. link_site fuel c h p t ku = Some (q, left) \<and>
     (if left then get_pLeft h' (root b) else get_pRight h' (root b)) = Inr it)"
proof (induction fuel arbitrary: s p)
  case 0
  then show ?case by simp
next
  case (Suc k)
  from Suc.prems(3) obtain a where a: "p = Some a" by auto
  from Suc.prems(1) Suc.prems(2) a obtain n where n: "cells h a = Some n"
    by (auto simp: rbind_eq_Inr get_data_def deref_eq_Inr)
  have gd: "get_data h (Some a) = Inr (data n)" "get_pLeft h (Some a) = Inr (pLeft n)"
    "get_pRight h (Some a) = Inr (pRight n)"
    using n by (simp_all add: get_data_def get_pLeft_def get_pRight_def deref_Some)
  have nodup: "\<not> (ku \<and> equal_to c t (data n))"
    using Suc.prems(1) Suc.prems(2) a gd by auto
  show ?case
  proof (cases "less_than c t (data n)")
    case True
    show ?thesis
    proof (cases "pLeft n = None")
      case False
      have rec: "priv_insert k c h b (LeftSlot a) t ku = Inr (h', b', it, True)"
        using Suc.prems(1) Suc.prems(2) a gd nodup True False
        by (simp add: child_slot_def)
      have "slot_get h b (LeftSlot a) = Inr (pLeft n)" using gd by simp
      from Suc.IH [OF rec this False] show ?thesis
        using a n nodup True False by simp
    next
      case nl: True
      show ?thesis
        using Suc.prems(1) Suc.prems(2) a gd n nodup True nl
        by (auto simp: rbind_eq_Inr)
    qed
  next
    case ge: False
    show ?thesis
    proof (cases "pRight n = None")
      case False
      have rec: "priv_insert k c h b (RightSlot a) t ku = Inr (h', b', it, True)"
        using Suc.prems(1) Suc.prems(2) a gd nodup ge False
        by (simp add: child_slot_def)
      have "slot_get h b (RightSlot a) = Inr (pRight n)" using gd by simp
      from Suc.IH [OF rec this False] show ?thesis
        using a n nodup ge False by simp
    next
      case nr: True
      show ?thesis
        using Suc.prems(1) Suc.prems(2) a gd n nodup ge nr
        by (auto simp: rbind_eq_Inr)
    qed
  qed
qed

lemma link_site_sound:
  "link_site fuel c h p t ku = Some (q, left) \<Longrightarrow>
   \<exists>n. cells h q = Some n \<and> left = less_than c t (data n) \<and>
        (if left then pLeft n else pRight n) = None"
proof (induction fuel arbitrary: p)
  case 0
  then show ?case by simp
next
  case (Suc k)
  from Suc.prems obtain a n where a: "p = Some a" "cells h a = Some n"
    by (auto split: option.splits)
  show ?case
  proof (cases "less_than c t (data n)")
    case True
    show ?thesis
    proof (cases "pLeft n = None")
      case True
      with Suc.prems a \<open>less_than c t (data n)\<close> show ?thesis
        by (auto split: if_splits)
    next
      case False
      with Suc.prems a \<open>less_than c t (data n)\<close>
      have "link_site k c h (pLeft n) t ku = Some (q, left)"
        by (auto split: if_splits)
      then show ?thesis by (rule Suc.IH)
    qed
  next
    case ge: False
    show ?thesis
    proof (cases "pRight n = None")
      case True
      with Suc.prems a ge show ?thesis
        by (auto split: if_splits)
    next
      case False
      with Suc.prems a ge
      have "link_site k c h (pRight n) t ku = Some (q, left)"
        by (auto split: if_splits)
      then show ?thesis by (rule Suc.IH)
    qed
  qed
qed

lemma BST_insert_iterator:
  "root b \<noteq> None \<Longrightarrow> BST_insert fuel c h b t ku = Inr (h', b', it, True) \<Longrightarrow>
   (\<exists>q left n. link_site fuel c h (root b) t ku = Some (q, left) \<and>
      cells h q = Some n \<and> left = less_than c t (data n) \<and>
      (if left then pLeft n else pRight n) = None \<and>
      (if left then get_pLeft h' (root b) else get_pRight h' (root b)) = Inr it)"
proof -
  assume r: "root b \<noteq> None" and ins: "BST_insert fuel c h b t ku = Inr (h', b', it, True)"
  from ins r obtain b1 where p: "priv_insert fuel c h b RootSlot t ku = Inr (h', b1, it, True)"
    by (auto simp: BST_insert_def rbind_eq_Inr split: prod.splits)
  have "slot_get h b RootSlot = Inr (root b)" by simp
  from priv_insert_iterator [OF p this r] obtain q left where
    l: "link_site fuel c h (root b) t ku = Some (q, left)"
       "(if left then get_pLeft h' (root b) else get_pRight h' (root b)) = Inr it"
    by blast
  from link_site_sound [OF l(1)] l show ?thesis by blast
qed

lemma insert_5_returns_10:
  "rbind (insert_seq 10 val_cmp True [20, 10, 30 :: int] empty_heap BST_ctor) (\<lambda>(h, b).
   rbind (BST_insert 10 val_cmp h b 5 True) (\<lambda>(h1, b1, it, inserted).
   rbind (get_data h1 it) (\<lambda>v. Inr (inserted, v)))) = Inr (True, 10)"
  by code_simp

lemma insert_5_outcome:
  "outcome (BST_insert 10 val_cmp three_heap three_bst 5 True) =
   Inr (\<lparr>root = Some 0, numElements = 4\<rparr>, Some 1, True)"
  by code_simp

text \<open>
  C9. Whenever \<^verbatim>\<open>insert\<close> on a non-empty tree reports \<open>inserted = true\<close>, the
  new node was linked under a node \<open>q\<close> whose left slot (when the value is less than
  the value of \<open>q\<close>) or right slot (otherwise) was free, and the iterator returned is
  the left child (when the new node was linked as a left child) or the right child
  (otherwise) of the node that \<^verbatim>\<open>root\<close> pointed to when \<^verbatim>\<open>insert\<close> was
  called, read in the heap after balancing. And there is a tree and a value where that
  iterator refers to another value than the inserted one: inserting 5 into the tree of
  20, 10, 30 returns an iterator to 10.
\<close>

theorem insert_returns_child_of_root:
  "(root b \<noteq> None \<and> BST_insert fuel c h b t ku = Inr (h', b', it, True) \<longrightarrow>
      (\<exists>q left n. link_site fuel c h (root b) t ku = Some (q, left) \<and>
         cells h q = Some n \<and> left = less_than c t (data n) \<and>
         (if left then pLeft n else pRight n) = None \<and>
         (if left then get_pLeft h' (root b) else get_pRight h' (root b)) = Inr it)) \<and>
   rbind (insert_seq 10 val_cmp True [20, 10, 30 :: int] empty_heap BST_ctor) (\<lambda>(h, b).
   rbind (BST_insert 10 val_cmp h b 5 True) (\<lambda>(h1, b1, it, inserted).
   rbind (get_data h1 it) (\<lambda>v. Inr (inserted, v)))) = Inr (True, 10)"
  using BST_insert_iterator [of b fuel c h t ku h' b' it] insert_5_returns_10 by blast

text \<open>Witness for C9: inserting 5 into the tree of 20, 10, 30.\<close>

theorem insert_returns_child_of_root_witness:
  "root three_bst \<noteq> None \<and>
   (\<exists>h' b'. BST_insert 10 val_cmp three_heap three_bst 5 True = Inr (h', b', Some 1, True) \<and>
      (\<exists>q left n. link_site 10 val_cmp three_heap (root three_bst) 5 True = Some (q, left) \<and>
         cells three_heap q = Some n \<and> left = less_than val_cmp 5 (data n) \<and>
         (if left then pLeft n else pRight n) = None \<and>
         (if left then get_pLeft h' (root three_bst) else get_pRight h' (root three_bst)) =
           Inr (Some 1)))"
proof -
  have r: "root three_bst \<noteq> None" by (simp add: three_bst_def)
  from outcome_Inr [OF insert_5_outcome] obtain h' where
    i: "BST_insert 10 val_cmp three_heap three_bst 5 True =
        Inr (h', \<lparr>root = Some 0, numElements = 4\<rparr>, Some 1, True)"
    by blast
  from insert_returns_child_of_root
    [of three_bst 10 val_cmp three_heap 5 True h' "\<lparr>root = Some 0, numElements = 4\<rparr>" "Some 1"]
    r i
  show ?thesis by blast
qed

section \<open>Moving a tree (C10)\<close>

lemma tree_at_frame:
  "tree_at h p t \<Longrightarrow> \<forall>a \<in> set (addrs t). cells h' a = cells h a \<Longrightarrow> tree_at h' p t"
  by (induction t arbitrary: p) (auto split: option.splits)

lemma slot_get_frame:
  "slot_get h b s = Inr p \<Longrightarrow> (\<forall>q. slot_owner s = Some q \<longrightarrow> cells h' q = cells h q) \<Longrightarrow>
   root b' = root b \<Longrightarrow> slot_get h' b' s = Inr p"
  by (cases s) (auto simp: get_pLeft_def get_pRight_def deref_def rbind_eq_Inr split: option.splits)

lemma priv_clear_tree:
  "tree_at h p t \<Longrightarrow> distinct (addrs t) \<Longrightarrow> slot_get h b s = Inr p \<Longrightarrow>
   (\<forall>q. slot_owner s = Some q \<longrightarrow> q \<notin> set (addrs t)) \<Longrightarrow> depth_of t < fuel \<Longrightarrow>
   \<exists>h' b'. priv_clear fuel h b s = Inr (h', b') \<and> cleared h b s (set (addrs t)) h' b'"
proof (induction t arbitrary: h b s p fuel)
  case Tip
  then obtain k where k: "fuel = Suc k" by (cases fuel) auto
  from Tip have p: "p = None" by simp
  have "cleared h b s {} h b"
    using Tip.prems(3) p
    by (cases s) (auto simp: cleared_def get_pLeft_def get_pRight_def deref_eq_Inr rbind_eq_Inr)
  then show ?case using Tip.prems(3) p by (simp add: k)
next
  case (Br l a x r)
  from Br.prems(5) obtain k where k: "fuel = Suc k" "depth_of l < k" "depth_of r < k"
    by (cases fuel) auto
  from Br.prems(1) obtain n where n: "p = Some a" "cells h a = Some n"
    "tree_at h (pLeft n) l" "tree_at h (pRight n) r"
    by (auto split: option.splits)
  from Br.prems(2) have d: "distinct (addrs l)" "distinct (addrs r)" "a \<notin> set (addrs l)"
    "a \<notin> set (addrs r)" "set (addrs l) \<inter> set (addrs r) = {}"
    by auto
  from Br.prems(4) have own: "\<forall>q. slot_owner s = Some q \<longrightarrow> q \<notin> set (addrs l) \<and> q \<noteq> a \<and> q \<notin> set (addrs r)"
    by auto
  \<comment> \<open>left subtree\<close>
  have gl: "slot_get h b (LeftSlot a) = Inr (pLeft n)"
    using n by (simp add: get_pLeft_def deref_Some)
  from Br.IH(1) [OF n(3) d(1) gl _ k(2)] d(3)
  obtain h1 b1 where c1: "priv_clear k h b (LeftSlot a) = Inr (h1, b1)"
    "cleared h b (LeftSlot a) (set (addrs l)) h1 b1"
    by auto
  from c1(2) n(2) have h1: "b1 = b" "cells h1 a = Some (n\<lparr>pLeft := None\<rparr>)"
    "\<forall>y. y \<notin> set (addrs l) \<and> y \<noteq> a \<longrightarrow> cells h1 y = cells h y"
    "\<forall>y \<in> set (addrs l). cells h1 y = None"
    by (auto simp: cleared_def)
  have s1: "slot_get h1 b1 s = Inr (Some a)"
    using slot_get_frame [OF Br.prems(3), of h1 b1] h1 own n(1) by auto
  \<comment> \<open>right subtree\<close>
  have t1: "tree_at h1 (pRight n) r"
    using tree_at_frame [OF n(4), of h1] h1(3) d by auto
  have gr: "slot_get h1 b1 (RightSlot a) = Inr (pRight n)"
    using h1(2) by (simp add: get_pRight_def deref_Some)
  from Br.IH(2) [OF t1 d(2) gr _ k(3)] d(4)
  obtain h2 b2 where c2: "priv_clear k h1 b1 (RightSlot a) = Inr (h2, b2)"
    "cleared h1 b1 (RightSlot a) (set (addrs r)) h2 b2"
    by auto
  from c2(2) h1(2) have h2: "b2 = b1" "cells h2 a = Some (n\<lparr>pLeft := None, pRight := None\<rparr>)"
    "\<forall>y. y \<notin> set (addrs r) \<and> y \<noteq> a \<longrightarrow> cells h2 y = cells h1 y"
    "\<forall>y \<in> set (addrs r). cells h2 y = None"
    by (auto simp: cleared_def)
  have s2: "slot_get h2 b2 s = Inr (Some a)"
    using slot_get_frame [OF s1, of h2 b2] h2 own by auto
  \<comment> \<open>the node itself\<close>
  define h3 where "h3 = h2\<lparr>cells := (cells h2)(a := None)\<rparr>"
  have del: "delete_BNode h2 (Some a) = Inr h3"
    using h2(2) by (simp add: delete_BNode_def h3_def)
  have step: "priv_clear fuel h b s = slot_set h3 b2 s None"
    using Br.prems(3) n(1) c1(1) s1 c2(1) s2 del
    by (simp add: k child_slot_def)
  have fr3: "\<forall>y. y \<notin> set (addrs (Br l a x r)) \<longrightarrow> cells h3 y = cells h y"
    using h1(3) h2(3) by (auto simp: h3_def)
  have gone: "\<forall>y \<in> set (addrs (Br l a x r)). cells h3 y = None"
    using h1(4) h2(3) h2(4) d by (auto simp: h3_def)
  show ?case
  proof (cases s)
    case RootSlot
    then show ?thesis
      using step fr3 gone h1(1) h2(1) by (auto simp: cleared_def)
  next
    case (LeftSlot q)
    with own have q: "q \<notin> set (addrs (Br l a x r))" by auto
    from Br.prems(3) LeftSlot obtain nq where nq: "cells h q = Some nq"
      by (auto simp: get_pLeft_def deref_eq_Inr rbind_eq_Inr)
    with fr3 q have "cells h3 q = Some nq" by simp
    then show ?thesis
      using LeftSlot step fr3 gone h1(1) h2(1) nq q
      by (auto simp: cleared_def set_pLeft_def store_def)
  next
    case (RightSlot q)
    with own have q: "q \<notin> set (addrs (Br l a x r))" by auto
    from Br.prems(3) RightSlot obtain nq where nq: "cells h q = Some nq"
      by (auto simp: get_pRight_def deref_eq_Inr rbind_eq_Inr)
    with fr3 q have "cells h3 q = Some nq" by simp
    then show ?thesis
      using RightSlot step fr3 gone h1(1) h2(1) nq q
      by (auto simp: cleared_def set_pRight_def store_def)
  qed
qed


text \<open>
  C10. After the move constructor, and after the move assignment between two distinct
  objects, the source is empty (\<^verbatim>\<open>root\<close> is \<^verbatim>\<open>nullptr\<close>, \<^verbatim>\<open>size()\<close> is 0,
  \<^verbatim>\<open>begin()\<close> equals \<^verbatim>\<open>end()\<close>) and the destination holds the tree \<open>ts\<close> of
  values the source held, with the source's size. The move assignment first clears the
  destination, so its old nodes are a tree \<open>td\<close> of distinct addresses apart from the
  source's nodes, and the fuel exceeds the depth of \<open>td\<close>.
\<close>

theorem move_leaves_source_empty:
  assumes ts: "tree_at h (root rhs) ts"
  shows "(case BST_move_ctor rhs of (dst, src) \<Rightarrow>
            root src = None \<and> BST_size src = 0 \<and> BST_begin fuel h src = Inr BST_end \<and>
            tree_at h (root dst) ts \<and> BST_size dst = BST_size rhs) \<and>
         (tree_at h (root this) td \<and> distinct (addrs td) \<and>
          set (addrs td) \<inter> set (addrs ts) = {} \<and> depth_of td < fuel \<longrightarrow>
          (\<exists>h' dst src. BST_move_assign fuel h this rhs = Inr (h', dst, src) \<and>
             root src = None \<and> BST_size src = 0 \<and> BST_begin fuel h' src = Inr BST_end \<and>
             tree_at h' (root dst) ts \<and> BST_size dst = BST_size rhs))"
proof (intro conjI impI)
  show "case BST_move_ctor rhs of (dst, src) \<Rightarrow>
            root src = None \<and> BST_size src = 0 \<and> BST_begin fuel h src = Inr BST_end \<and>
            tree_at h (root dst) ts \<and> BST_size dst = BST_size rhs"
    using ts by (simp add: BST_move_ctor_def BST_size_def BST_begin_def BST_empty_def)
next
  assume a: "tree_at h (root this) td \<and> distinct (addrs td) \<and>
          set (addrs td) \<inter> set (addrs ts) = {} \<and> depth_of td < fuel"
  let ?b = "this\<lparr>numElements := 0\<rparr>"
  have "slot_get h ?b RootSlot = Inr (root this)" by simp
  from priv_clear_tree [OF _ _ this, of td fuel] a
  obtain h1 b1 where c: "priv_clear fuel h ?b RootSlot = Inr (h1, b1)"
    "cleared h ?b RootSlot (set (addrs td)) h1 b1"
    by auto
  from c(2) have b1: "b1 = ?b\<lparr>root := None\<rparr>"
    and fr: "\<forall>y. y \<notin> set (addrs td) \<longrightarrow> cells h1 y = cells h y"
    by (auto simp: cleared_def)
  have "tree_at h1 (root rhs) ts"
    using tree_at_frame [OF ts, of h1] fr a by auto
  then show "\<exists>h' dst src. BST_move_assign fuel h this rhs = Inr (h', dst, src) \<and>
             root src = None \<and> BST_size src = 0 \<and> BST_begin fuel h' src = Inr BST_end \<and>
             tree_at h' (root dst) ts \<and> BST_size dst = BST_size rhs"
    using c(1) b1
    by (simp add: BST_move_assign_def BST_clear_def BST_swap_def BST_size_def BST_begin_def
        BST_empty_def)
qed


text \<open>Witness for C10: the tree holding 2 is moved, by construction and by assignment
  into the tree holding 1.\<close>

theorem move_leaves_source_empty_witness:
  "tree_at two_heap (root \<lparr>root = Some 1, numElements = 1\<rparr>) (Br Tip 1 2 Tip) \<and>
   tree_at two_heap (root \<lparr>root = Some 0, numElements = 1\<rparr>) (Br Tip 0 1 Tip) \<and>
   distinct (addrs (Br Tip 0 (1::int) Tip)) \<and>
   set (addrs (Br Tip 0 (1::int) Tip)) \<inter> set (addrs (Br Tip 1 (2::int) Tip)) = {} \<and>
   depth_of (Br Tip 0 (1::int) Tip) < 5 \<and>
   (case BST_move_ctor \<lparr>root = Some 1, numElements = 1\<rparr> of (dst, src) \<Rightarrow>
      root src = None \<and> BST_size src = 0 \<and> BST_begin 5 two_heap src = Inr BST_end \<and>
      tree_at two_heap (root dst) (Br Tip 1 2 Tip) \<and> BST_size dst = 1) \<and>
   (\<exists>h' dst src.
      BST_move_assign 5 two_heap \<lparr>root = Some 0, numElements = 1\<rparr>
        \<lparr>root = Some 1, numElements = 1\<rparr> = Inr (h', dst, src) \<and>
      root src = None \<and> BST_size src = 0 \<and> BST_begin 5 h' src = Inr BST_end \<and>
      tree_at h' (root dst) (Br Tip 1 2 Tip) \<and> BST_size dst = 1)"
proof -
  have s: "tree_at two_heap (root \<lparr>root = Some 1, numElements = 1\<rparr>) (Br Tip 1 2 Tip)"
    by (simp add: two_heap_def)
  have d: "tree_at two_heap (root \<lparr>root = Some 0, numElements = 1\<rparr>) (Br Tip 0 1 Tip)"
    by (simp add: two_heap_def)
  from move_leaves_source_empty
    [OF s, of 5 "\<lparr>root = Some 0, numElements = 1\<rparr>" "Br Tip 0 1 Tip"] s d
  show ?thesis by (simp add: BST_size_def)
qed

end
